theory Spec2Isabelle
  imports Complex_Main
begin

section \<open>Python values used by \<open>main.py\<close>\<close>

text \<open>
  A Python \<open>str\<close> is a sequence of Unicode code points. It is modelled as a HOL
  \<open>string\<close> whose characters stand for the code points U+0000 to U+00FF (the ASCII and
  Latin-1 blocks); \<open>of_char c\<close> is the code point of \<open>c\<close>. Strings holding code points
  beyond U+00FF are outside the model.

  Exceptions are values of \<open>error\<close>; a call that can raise returns \<open>error + 'a\<close>, with
  \<open>Inl\<close> for the exception.
\<close>

datatype error = ValueError | KeyError | IndexError | OverflowError | ZeroDivisionError

type_synonym reviews_dict = "string \<rightharpoonup> string list"

section \<open>Name normalization\<close>

text \<open>
  \<open>str.lower\<close> on the code points below 256: the letters \<open>A\<close> to \<open>Z\<close> (65 to 90)
  and the Latin-1 capitals U+00C0 to U+00DE without the multiplication sign U+00D7 move
  up by 32; every other code point is kept. In this range the lower-case form of a
  character is always a single character and does not depend on its neighbours.
\<close>

definition char_lower :: "char \<Rightarrow> char" where
  "char_lower c =
     (let n = (of_char c :: nat)
      in if (65 \<le> n \<and> n \<le> 90) \<or> (192 \<le> n \<and> n \<le> 214) \<or> (216 \<le> n \<and> n \<le> 222)
         then char_of (n + 32) else c)"

definition str_lower :: "string \<Rightarrow> string" where
  "str_lower s = map char_lower s"

text \<open>
  \<open>str.isalnum\<close> of a single character, on the code points below 256: the digits, the
  ASCII letters, the Latin-1 letters (with the ordinal indicators and the micro sign),
  the superscript digits and the vulgar fractions.
\<close>

definition char_isalnum :: "char \<Rightarrow> bool" where
  "char_isalnum c =
     (let n = (of_char c :: nat)
      in (48 \<le> n \<and> n \<le> 57) \<or> (65 \<le> n \<and> n \<le> 90) \<or> (97 \<le> n \<and> n \<le> 122)
         \<or> n = 170 \<or> n = 178 \<or> n = 179 \<or> n = 181 \<or> n = 185 \<or> n = 186
         \<or> (188 \<le> n \<and> n \<le> 190) \<or> (192 \<le> n \<and> n \<le> 214) \<or> (216 \<le> n \<and> n \<le> 246)
         \<or> (248 \<le> n \<and> n \<le> 255))"

text \<open>
  \<^verbatim>\<open>
  def normalize_restaurant_name(restaurant_name: str) -> str:
      normalized = restaurant_name.lower()
      normalized = "".join(c for c in normalized if c.isalnum())
      return normalized
  \<close>
\<close>

definition normalize_restaurant_name :: "string \<Rightarrow> string" where
  "normalize_restaurant_name restaurant_name =
     (let normalized = str_lower restaurant_name
      in filter char_isalnum normalized)"

section \<open>The review index\<close>

text \<open>
  \<open>line.split(". ", 1)\<close>: the list \<open>[before, after]\<close> around the leftmost occurrence of
  the separator, or \<open>[line]\<close> when the separator does not occur. \<open>split_acc\<close> scans the
  line from the left, holding the characters passed so far.
\<close>

fun split_acc :: "string \<Rightarrow> string \<Rightarrow> string list" where
  "split_acc seen (c # d # rest) =
     (if c = CHR ''.'' \<and> d = CHR '' '' then [seen, rest]
      else split_acc (seen @ [c]) (d # rest))"
| "split_acc seen rest = [seen @ rest]"

definition split_period_space :: "string \<Rightarrow> string list" where
  "split_period_space line = split_acc [] line"

text \<open>
  The body of the \<open>for line in lines\<close> loop of \<open>fetch_restaurant_reviews_hash\<close>.
  Unpacking \<open>restaurant_name, review = line.split(". ", 1)\<close> raises \<open>ValueError\<close> unless
  the list has exactly two elements; \<open>reviews_hash[restaurant_name]\<close> raises \<open>KeyError\<close>
  on a missing key.
  \<^verbatim>\<open>
      restaurant_name, review = line.split(". ", 1)
      restaurant_name = normalize_restaurant_name(restaurant_name)
      if restaurant_name not in reviews_hash:
          reviews_hash[restaurant_name] = []
      reviews_hash[restaurant_name].append(review)
  \<close>
\<close>

definition add_line :: "reviews_dict \<Rightarrow> string \<Rightarrow> error + reviews_dict" where
  "add_line reviews_hash line =
     (case split_period_space line of
        [name_part, review] \<Rightarrow>
          (let restaurant_name = normalize_restaurant_name name_part;
               reviews_hash1 = (if restaurant_name \<notin> dom reviews_hash
                                then reviews_hash(restaurant_name \<mapsto> [])
                                else reviews_hash)
           in case reviews_hash1 restaurant_name of
                None \<Rightarrow> Inl KeyError
              | Some reviews \<Rightarrow> Inr (reviews_hash1(restaurant_name \<mapsto> reviews @ [review])))
      | _ \<Rightarrow> Inl ValueError)"

fun load_lines :: "reviews_dict \<Rightarrow> string list \<Rightarrow> error + reviews_dict" where
  "load_lines reviews_hash [] = Inr reviews_hash"
| "load_lines reviews_hash (line # lines) =
     (case add_line reviews_hash line of
        Inl e \<Rightarrow> Inl e
      | Inr reviews_hash' \<Rightarrow> load_lines reviews_hash' lines)"

text \<open>
  \<open>fetch_restaurant_reviews_hash\<close> reads \<open>./restaurant-data.txt\<close>; its argument here is
  the list \<open>lines = f.read().splitlines()\<close>, the lines of the corpus in file order.
\<close>

definition fetch_restaurant_reviews_hash :: "string list \<Rightarrow> error + reviews_dict" where
  "fetch_restaurant_reviews_hash lines = load_lines Map.empty lines"

text \<open>
  \<^verbatim>\<open>
  def fetch_restaurant_data(restaurant_name: str) -> Dict[str, List[str]]:
      reviews = restaurant_reviews_hash.get(
          normalize_restaurant_name(restaurant_name), [])
      return {restaurant_name: reviews}
  \<close>
  The module-level \<open>restaurant_reviews_hash\<close> is passed as the first argument.
\<close>

definition fetch_restaurant_data :: "reviews_dict \<Rightarrow> string \<Rightarrow> reviews_dict" where
  "fetch_restaurant_data restaurant_reviews_hash restaurant_name =
     (let reviews = (case restaurant_reviews_hash (normalize_restaurant_name restaurant_name) of
                       None \<Rightarrow> []
                     | Some rs \<Rightarrow> rs)
      in [restaurant_name \<mapsto> reviews])"

text \<open>
  Importing the module binds \<open>restaurant_reviews_hash = fetch_restaurant_reviews_hash()\<close>
  before any call can be made: a failed load leaves no index and no callable function.
\<close>

definition import_then_fetch :: "string list \<Rightarrow> string \<Rightarrow> error + reviews_dict" where
  "import_then_fetch lines restaurant_name =
     (case fetch_restaurant_reviews_hash lines of
        Inl e \<Rightarrow> Inl e
      | Inr restaurant_reviews_hash \<Rightarrow>
          Inr (fetch_restaurant_data restaurant_reviews_hash restaurant_name))"

section \<open>Python floats\<close>

text \<open>
  A Python \<open>float\<close> is an IEEE 754 binary64 value. A finite one is modelled by the real
  number it denotes, \<open>Fin x\<close>; the infinities and the NaN are values of their own. The
  sign of a zero is not modelled: no negative value takes part in the arithmetic of
  \<open>calculate_overall_score\<close> (a negative argument of \<open>math.sqrt\<close> raises before any
  arithmetic), so a negative zero cannot arise there.
\<close>

datatype pyfloat = Fin real | PInf | NInf | NaN

text \<open>Rounding a real to the nearest integer, a tie going to the even neighbour.\<close>

definition round_half_even :: "real \<Rightarrow> int" where
  "round_half_even r =
     (let f = \<lfloor>r\<rfloor>; d = r - of_int f
      in if d < 1 / 2 then f else if 1 / 2 < d then f + 1 else if even f then f else f + 1)"

text \<open>
  \<open>fl x\<close> is the binary64 value nearest to the real \<open>x\<close>, a tie going to the even
  significand (the rounding of every arithmetic operation and of the conversion from
  \<open>int\<close>). The significand has 53 bits, so the spacing of the values around \<open>x\<close> is
  \<open>2 powr e\<close> with \<open>e\<close> the binary exponent of \<open>x\<close> less 52, and not below \<open>- 1074\<close>, the
  exponent of the subnormal values. A result of magnitude \<open>2 powr 1024\<close> or more is
  beyond the largest finite value and becomes an infinity.
\<close>

definition fl :: "real \<Rightarrow> pyfloat" where
  "fl x =
     (if x = 0 then Fin 0
      else let e = max (\<lfloor>log 2 \<bar>x\<bar>\<rfloor> - 52) (- 1074);
               v = of_int (round_half_even (x / 2 powr of_int e)) * 2 powr of_int e
           in if 2 powr 1024 \<le> \<bar>v\<bar> then (if 0 < x then PInf else NInf) else Fin v)"

text \<open>
  Addition, multiplication and division of floats: the exact result, rounded, with the
  IEEE 754 rules for the infinities and the NaN. Addition and multiplication never
  raise (an overflow gives an infinity); \<open>x / y\<close> raises \<open>ZeroDivisionError\<close> when \<open>y\<close>
  is zero, whatever \<open>x\<close> is.
\<close>

fun fadd :: "pyfloat \<Rightarrow> pyfloat \<Rightarrow> pyfloat" where
  "fadd (Fin a) (Fin b) = fl (a + b)"
| "fadd NaN _ = NaN"
| "fadd _ NaN = NaN"
| "fadd PInf NInf = NaN"
| "fadd NInf PInf = NaN"
| "fadd PInf _ = PInf"
| "fadd _ PInf = PInf"
| "fadd NInf _ = NInf"
| "fadd _ NInf = NInf"

fun fmul :: "pyfloat \<Rightarrow> pyfloat \<Rightarrow> pyfloat" where
  "fmul (Fin a) (Fin b) = fl (a * b)"
| "fmul NaN _ = NaN"
| "fmul _ NaN = NaN"
| "fmul (Fin a) PInf = (if a = 0 then NaN else if 0 < a then PInf else NInf)"
| "fmul (Fin a) NInf = (if a = 0 then NaN else if 0 < a then NInf else PInf)"
| "fmul PInf (Fin b) = (if b = 0 then NaN else if 0 < b then PInf else NInf)"
| "fmul NInf (Fin b) = (if b = 0 then NaN else if 0 < b then NInf else PInf)"
| "fmul PInf PInf = PInf"
| "fmul PInf NInf = NInf"
| "fmul NInf PInf = NInf"
| "fmul NInf NInf = PInf"

fun fdiv :: "pyfloat \<Rightarrow> pyfloat \<Rightarrow> error + pyfloat" where
  "fdiv x (Fin b) =
     (if b = 0 then Inl ZeroDivisionError
      else case x of
             Fin a \<Rightarrow> Inr (fl (a / b))
           | PInf \<Rightarrow> Inr (if 0 < b then PInf else NInf)
           | NInf \<Rightarrow> Inr (if 0 < b then NInf else PInf)
           | NaN \<Rightarrow> Inr NaN)"
| "fdiv (Fin a) PInf = Inr (Fin 0)"
| "fdiv (Fin a) NInf = Inr (Fin 0)"
| "fdiv _ _ = Inr NaN"

text \<open>
  The conversion of an \<open>int\<close> operand to \<open>float\<close> (in \<open>math.sqrt(n)\<close>, \<open>x * 10\<close> and
  \<open>N * x\<close>): the nearest float, or \<open>OverflowError\<close> when the integer is too large.
\<close>

definition float_of_int :: "int \<Rightarrow> error + pyfloat" where
  "float_of_int n = (case fl (of_int n) of Fin v \<Rightarrow> Inr (Fin v) | _ \<Rightarrow> Inl OverflowError)"

text \<open>
  \<open>math.sqrt\<close> of an \<open>int\<close>: the argument is converted to \<open>float\<close>, a negative argument
  raises \<open>ValueError\<close> (math domain error), and the result is the correctly rounded
  square root.
\<close>

definition math_sqrt :: "int \<Rightarrow> error + pyfloat" where
  "math_sqrt n =
     (case float_of_int n of
        Inl e \<Rightarrow> Inl e
      | Inr x \<Rightarrow>
          (case x of
             Fin a \<Rightarrow> if a < 0 then Inl ValueError else Inr (fl (sqrt a))
           | PInf \<Rightarrow> Inr PInf
           | NInf \<Rightarrow> Inl ValueError
           | NaN \<Rightarrow> Inr NaN))"

text \<open>
  \<open>"{:.3f}".format(x)\<close>: the decimal expansion of the float, rounded to three digits
  after the point, a tie going to the even digit; all the digits of the integer part are
  written. \<open>str_nat\<close> writes a natural number in decimal.
\<close>

definition digit_char :: "nat \<Rightarrow> char" where
  "digit_char d = char_of (48 + d)"

function str_nat :: "nat \<Rightarrow> string" where
  "str_nat n = (if n < 10 then [digit_char n] else str_nat (n div 10) @ [digit_char (n mod 10)])"
  by pat_completeness auto
termination
  by (relation "measure (\<lambda>n. n)") auto

declare str_nat.simps [simp del]

definition format_3f :: "pyfloat \<Rightarrow> string" where
  "format_3f x =
     (case x of
        Fin a \<Rightarrow>
          (let n = nat \<bar>round_half_even (a * 1000)\<bar>
           in (if a < 0 then ''-'' else []) @ str_nat (n div 1000) @ ''.''
              @ [digit_char (n div 100 mod 10), digit_char (n div 10 mod 10),
                 digit_char (n mod 10)])
      | PInf \<Rightarrow> ''inf''
      | NInf \<Rightarrow> ''-inf''
      | NaN \<Rightarrow> ''nan'')"

section \<open>The scorer\<close>

text \<open>\<open>xs[i]\<close> for an index \<open>i\<close> that is not negative: \<open>IndexError\<close> beyond the end.\<close>

definition list_get :: "'a list \<Rightarrow> nat \<Rightarrow> error + 'a" where
  "list_get xs i = (if i < length xs then Inr (xs ! i) else Inl IndexError)"

text \<open>
  The loop of \<open>calculate_overall_score\<close>, from the index \<open>i\<close> on:
  \<^verbatim>\<open>
      for i in range(N):
          food_score = food_scores[i]
          service_score = customer_service_scores[i]
          total_score += math.sqrt(food_score**2 * service_score)
  \<close>
  The product \<open>food_score**2 * service_score\<close> is an exact integer. \<open>total_score\<close> starts
  as the integer \<open>0\<close>, which the first addition converts to the float zero; it is the
  float zero here from the start.
\<close>

function score_loop ::
  "int list \<Rightarrow> int list \<Rightarrow> nat \<Rightarrow> nat \<Rightarrow> pyfloat \<Rightarrow> error + pyfloat" where
  "score_loop food_scores customer_service_scores N i total_score =
     (if i < N then
        (case list_get food_scores i of
           Inl e \<Rightarrow> Inl e
         | Inr food_score \<Rightarrow>
             (case list_get customer_service_scores i of
                Inl e \<Rightarrow> Inl e
              | Inr service_score \<Rightarrow>
                  (case math_sqrt (food_score ^ 2 * service_score) of
                     Inl e \<Rightarrow> Inl e
                   | Inr r \<Rightarrow>
                       score_loop food_scores customer_service_scores N (i + 1)
                         (fadd total_score r))))
      else Inr total_score)"
  by pat_completeness auto
termination
  by (relation "measure (\<lambda>(food_scores, customer_service_scores, N, i, total_score). N - i)")
    auto

declare score_loop.simps [simp del]

text \<open>
  \<^verbatim>\<open>
      N = len(food_scores)
      total_score = 0
      for i in range(N): ...
      final_score = total_score * 10 / (N * math.sqrt(125))
      final_score = "{:.3f}".format(final_score)
      return {restaurant_name: final_score}
  \<close>
  When \<open>N = 0\<close> the loop does not run and \<open>total_score * 10\<close> is the integer \<open>0\<close>, which
  the division converts to the float zero: the same value as the float product here.
\<close>

definition calculate_overall_score ::
  "string \<Rightarrow> int list \<Rightarrow> int list \<Rightarrow> error + (string \<rightharpoonup> string)" where
  "calculate_overall_score restaurant_name food_scores customer_service_scores =
     (let N = length food_scores
      in case score_loop food_scores customer_service_scores N 0 (Fin 0) of
           Inl e \<Rightarrow> Inl e
         | Inr total_score \<Rightarrow>
             (case float_of_int 10 of
                Inl e \<Rightarrow> Inl e
              | Inr ten \<Rightarrow>
                  (case math_sqrt 125 of
                     Inl e \<Rightarrow> Inl e
                   | Inr sqrt_125 \<Rightarrow>
                       (case float_of_int (int N) of
                          Inl e \<Rightarrow> Inl e
                        | Inr n \<Rightarrow>
                            (case fdiv (fmul total_score ten) (fmul n sqrt_125) of
                               Inl e \<Rightarrow> Inl e
                             | Inr final_score \<Rightarrow>
                                 Inr [restaurant_name \<mapsto> format_3f final_score])))))"

section \<open>The pipeline coordinator\<close>

text \<open>
  A \<open>ConversableAgent\<close> is kept as its name and system message (the \<open>llm_config\<close>, which
  holds the model name and the API key of the environment, is left out). One entry of the
  list passed to \<open>initiate_chats\<close> is a \<open>chat\<close>: the dictionary with the keys
  \<open>recipient\<close>, \<open>message\<close>, \<open>max_turns\<close> and \<open>summary_method\<close>.
\<close>

record conversable_agent =
  agent_name :: string
  system_message :: string

record chat =
  recipient :: conversable_agent
  message :: string
  max_turns :: nat
  summary_method :: string

definition get_data_fetch_agent_prompt :: string where
  "get_data_fetch_agent_prompt =
     ''Identify the restaurant name from the given query and fetch the reviews for that restaurant using the fetch_restaurant_data function. Return the raw JSON results only.''"

definition review_scoring_format :: string where
  "review_scoring_format = ''food_score = x, customer_service_score = y''"

definition get_review_analysis_agent_prompt :: string where
  "get_review_analysis_agent_prompt =
     (let scoring_format = review_scoring_format
      in ''Your are given a restaurant name and restaurant reviews. Extract the food score and customer service score for each review. The food score is a number between 1 and 5, and the customer service score is a number between 1 and 5. The food score is determined by the adjectives associated with the food, and the customer service score is determined by the adjectives associated with the customer service. Score 1/5 has one of these adjectives: awful, horrible, or disgusting. Score 2/5 has one of these adjectives: bad, unpleasant, or offensive. Score 3/5 has one of these adjectives: average, uninspiring, or forgettable. Score 4/5 has one of these adjectives: good, enjoyable, or satisfying. Score 5/5 has one of these adjectives: awesome, incredible, or amazing. Answer strictly with the following format, one line per review: `''
         @ scoring_format @ ''`.'')"

definition get_scoring_agent_prompt :: string where
  "get_scoring_agent_prompt =
     (let scoring_format = review_scoring_format
      in ''Your are given a restaurant name and scores for the food and the customer service reviews, in the following format: `''
         @ scoring_format
         @ ''`. Extract the food_scores and the customer_service_scores, then use the function `calculate_overall_score` and return the result only. Make sure that there are as many food scores than custoemr service scores.'')"

definition entrypoint_agent :: conversable_agent where
  "entrypoint_agent =
     \<lparr>agent_name = ''entrypoint_agent'',
      system_message = ''You must execute the functions and return the response.''\<rparr>"

definition data_fetch_agent :: conversable_agent where
  "data_fetch_agent =
     \<lparr>agent_name = ''data_fetch_agent'', system_message = get_data_fetch_agent_prompt\<rparr>"

definition review_analysis_agent :: conversable_agent where
  "review_analysis_agent =
     \<lparr>agent_name = ''review_analysis_agent'',
      system_message = get_review_analysis_agent_prompt\<rparr>"

definition scoring_agent :: conversable_agent where
  "scoring_agent =
     \<lparr>agent_name = ''scoring_agent'', system_message = get_scoring_agent_prompt\<rparr>"

text \<open>
  \<open>main\<close> builds the four agents, registers the two tools and returns
  \<open>entrypoint_agent.initiate_chats([...])\<close>. The conversation itself is run by the
  \<open>autogen\<close> library, which is not part of the repository: the method is the parameter
  \<open>initiate_chats\<close>, applied to the sender and to the list of chats, and \<open>main\<close> returns
  whatever it returns.
\<close>

definition main :: "(conversable_agent \<Rightarrow> chat list \<Rightarrow> 'r) \<Rightarrow> string \<Rightarrow> 'r" where
  "main initiate_chats user_query =
     (let result = initiate_chats entrypoint_agent
        [\<lparr>recipient = data_fetch_agent,
          message = ''Query: '' @ user_query,
          max_turns = 2,
          summary_method = ''last_msg''\<rparr>,
         \<lparr>recipient = review_analysis_agent,
          message = ''Here are the reviews'',
          max_turns = 2,
          summary_method = ''last_msg''\<rparr>,
         \<lparr>recipient = scoring_agent,
          message = ''Here are the scores'',
          max_turns = 2,
          summary_method = ''last_msg''\<rparr>]
      in result)"

subsection \<open>The conversational runtime\<close>

text \<open>
  Modelled from the spec: the collaborators of the stages, which are model-backed and
  opaque (the \<open>autogen\<close> agents behind \<open>initiate_chats\<close>; the library is not under
  \<open>src/\<close>). Spec 9 abstracts a stage as a text transformation under a turn budget, run as
  a bounded loop that ends when "the collaborator signals completion, or the turn budget
  is exhausted". \<open>respond\<close> is the answer of a stage's collaborator to the messages so
  far, with its completion signal; \<open>follow_up\<close> is the next request of the sender within
  the same exchange; \<open>summarize_other\<close> stands for any summary method other than
  \<open>last_msg\<close>, of which the spec says nothing. The second argument of \<open>respond\<close> and
  \<open>follow_up\<close> is the context handed to the stage.
\<close>

record collaborators =
  respond :: "conversable_agent \<Rightarrow> string option \<Rightarrow> string list \<Rightarrow> string \<times> bool"
  follow_up :: "conversable_agent \<Rightarrow> string option \<Rightarrow> string list \<Rightarrow> string"
  summarize_other :: "string \<Rightarrow> string list \<Rightarrow> string"

text \<open>
  Modelled from the spec: the outcome of one stage (the result of one chat of
  \<open>initiate_chats\<close>, not under \<open>src/\<close>): the collaborator, the context the stage was given,
  the contents of the messages of its exchange in order, and its summary.
\<close>

record chat_result =
  stage_recipient :: conversable_agent
  stage_context :: "string option"
  chat_history :: "string list"
  summary :: string

text \<open>
  Modelled from the spec: the exchange of one stage (the turn-taking of \<open>initiate_chats\<close>,
  not under \<open>src/\<close>). Spec 3 and 4.3: the turn budget bounds "how many request/response
  exchanges that collaborator may use before the stage's output is taken as final". One
  turn is the pending request, last in \<open>history\<close>, and the collaborator's answer to it;
  the exchange ends on the completion signal or when the budget is used up, and
  otherwise the sender's next request opens the next turn.
\<close>

fun run_turns ::
  "(string list \<Rightarrow> string \<times> bool) \<Rightarrow> (string list \<Rightarrow> string) \<Rightarrow> nat \<Rightarrow> string list \<Rightarrow> string list"
  where
  "run_turns answer ask 0 history = history"
| "run_turns answer ask (Suc budget) history =
     (let (response, finished) = answer history;
          history' = history @ [response]
      in if finished \<or> budget = 0 then history'
         else run_turns answer ask budget (history' @ [ask history']))"

text \<open>
  Modelled from the spec: the summary of a stage (the \<open>summary_method\<close> of
  \<open>initiate_chats\<close>, not under \<open>src/\<close>). Spec 4.3: the summarized output is "defined as the
  content of the last message in that exchange"; this is the method \<open>last_msg\<close>.
\<close>

definition stage_summary :: "collaborators \<Rightarrow> string \<Rightarrow> string list \<Rightarrow> string" where
  "stage_summary rt method history =
     (if method = ''last_msg'' then last history else summarize_other rt method history)"

text \<open>
  Modelled from the spec: the sequencing of the stages (the body of \<open>initiate_chats\<close>, not
  under \<open>src/\<close>). Spec 4.3: the state machine is "strictly linear, no branches, no
  retries at this layer"; a stage opens with its message, with the summary of the stage
  before it as context, and its summary "becomes the input to the next stage"; the
  coordinator "returns the ordered sequence of per-stage summaries". The chats of the
  queue are run once each, in order; the first has no context.
\<close>

fun run_chats ::
  "collaborators \<Rightarrow> conversable_agent \<Rightarrow> string option \<Rightarrow> chat list \<Rightarrow> chat_result list" where
  "run_chats rt sender context [] = []"
| "run_chats rt sender context (c # queue) =
     (let history = run_turns (respond rt (recipient c) context) (follow_up rt sender context)
                      (max_turns c) [message c];
          s = stage_summary rt (summary_method c) history
      in \<lparr>stage_recipient = recipient c, stage_context = context,
          chat_history = history, summary = s\<rparr>
         # run_chats rt sender (Some s) queue)"

text \<open>
  Modelled from the spec: \<open>sender.initiate_chats(queue)\<close> (the \<open>autogen\<close> method, not
  under \<open>src/\<close>), as the run of the queue from the start state of spec 4.3.
\<close>

definition modelled_initiate_chats ::
  "collaborators \<Rightarrow> conversable_agent \<Rightarrow> chat list \<Rightarrow> chat_result list" where
  "modelled_initiate_chats rt sender queue = run_chats rt sender None queue"

section \<open>Notions used to state the properties\<close>

text \<open>
  \<open>has_period_space s\<close>: the two-character separator (a period, then a space) occurs
  somewhere in \<open>s\<close>; see \<open>has_period_space_iff\<close>.
\<close>

fun has_period_space :: "string \<Rightarrow> bool" where
  "has_period_space (c # d # rest) =
     ((c = CHR ''.'' \<and> d = CHR '' '') \<or> has_period_space (d # rest))"
| "has_period_space _ = False"

text \<open>
  A corpus record is a pair of a name part and a review text; \<open>mk_line\<close> is the line that
  holds it. When the separator does not occur in the name part followed by a period, the
  separator written by \<open>mk_line\<close> is the leftmost one of the line.
\<close>

definition mk_line :: "string \<times> string \<Rightarrow> string" where
  "mk_line r = fst r @ ''. '' @ snd r"

text \<open>
  The reviews, in corpus order, of the records whose name part normalizes to \<open>key\<close>, and
  the index that holds exactly these lists under the keys that occur.
\<close>

definition reviews_for :: "string \<Rightarrow> (string \<times> string) list \<Rightarrow> string list" where
  "reviews_for key recs =
     map snd (filter (\<lambda>r. normalize_restaurant_name (fst r) = key) recs)"

definition index_of :: "(string \<times> string) list \<Rightarrow> reviews_dict" where
  "index_of recs =
     (\<lambda>key. if reviews_for key recs = [] then None else Some (reviews_for key recs))"

definition extend_index :: "reviews_dict \<Rightarrow> (string \<times> string) list \<Rightarrow> reviews_dict" where
  "extend_index h recs =
     (\<lambda>key. case h key of
        None \<Rightarrow> (if reviews_for key recs = [] then None else Some (reviews_for key recs))
      | Some rs \<Rightarrow> Some (rs @ reviews_for key recs))"

text \<open>
  The score as the formula states it, in exact real arithmetic: the sum over \<open>i\<close> of
  \<open>sqrt (food_scores[i]^2 * customer_service_scores[i])\<close>, multiplied by 10 and divided
  by \<open>N * sqrt 125\<close>.
\<close>

definition exact_score :: "int list \<Rightarrow> int list \<Rightarrow> real" where
  "exact_score food_scores customer_service_scores =
     (\<Sum>i < length food_scores.
        sqrt (of_int ((food_scores ! i) ^ 2 * customer_service_scores ! i)))
     * 10 / (real (length food_scores) * sqrt 125)"

text \<open>
  A decimal string with exactly three digits after the point: a non-empty run of the
  digits \<open>0\<close> to \<open>9\<close> (code points 48 to 57), a period, three digits.
\<close>

definition is_digit :: "char \<Rightarrow> bool" where
  "is_digit c \<longleftrightarrow> 48 \<le> (of_char c :: nat) \<and> (of_char c :: nat) \<le> 57"

definition three_decimals :: "string \<Rightarrow> bool" where
  "three_decimals s \<longleftrightarrow>
     (\<exists>ip fp. s = ip @ ''.'' @ fp \<and> ip \<noteq> [] \<and> length fp = 3 \<and> list_all is_digit (ip @ fp))"

text \<open>
  The factor by which one rounding to binary64 can at most lower a value in the normal
  range; it can raise it by at most the inverse factor.
\<close>

definition rel_low :: real where
  "rel_low = 1 - 1 / 2 ^ 53"

section \<open>Properties of name normalization\<close>

lemma char_lower_idem: "char_lower (char_lower c) = char_lower c"
  unfolding char_lower_def Let_def by auto

lemma normalize_idem:
  "normalize_restaurant_name (normalize_restaurant_name x) = normalize_restaurant_name x"
proof -
  have "map char_lower (filter char_isalnum (map char_lower x)) =
        filter char_isalnum (map char_lower x)"
    by (induction x) (simp_all add: char_lower_idem)
  then show ?thesis
    by (simp add: normalize_restaurant_name_def str_lower_def)
qed

lemma normalize_applebees:
  "normalize_restaurant_name ''Applebee's'' = ''applebees''"
  "normalize_restaurant_name ''APPLEBEES'' = ''applebees''"
  "normalize_restaurant_name ''applebees'' = ''applebees''"
  by code_simp+

text \<open>
  C6: normalization is total (a HOL function, defined on every string) and idempotent;
  the three spellings of the example name have the same normal form, and a name without
  any letter or digit normalizes to the empty string.
\<close>

theorem normalize_idempotent:
  "normalize_restaurant_name (normalize_restaurant_name x) = normalize_restaurant_name x
   \<and> normalize_restaurant_name ''Applebee's'' = normalize_restaurant_name ''APPLEBEES''
   \<and> normalize_restaurant_name ''APPLEBEES'' = normalize_restaurant_name ''applebees''
   \<and> normalize_restaurant_name ''?!'' = []"
proof -
  have "normalize_restaurant_name ''?!'' = []" by code_simp
  then show ?thesis by (simp add: normalize_idem normalize_applebees)
qed

section \<open>Properties of the review store\<close>

text \<open>
  C4: the result of \<open>fetch_restaurant_data\<close> has the name it was given as its only key,
  the value is what the index holds under the normalized name, and it is the empty list
  when the index has no such key. The function returns a dictionary in every case.
\<close>

theorem fetch_restaurant_data_echoes_name:
  "dom (fetch_restaurant_data idx name) = {name}
   \<and> fetch_restaurant_data idx name name =
       Some (case idx (normalize_restaurant_name name) of None \<Rightarrow> [] | Some rs \<Rightarrow> rs)
   \<and> (idx (normalize_restaurant_name name) = None \<longrightarrow>
        fetch_restaurant_data idx name = [name \<mapsto> []])"
  by (simp add: fetch_restaurant_data_def)

theorem fetch_restaurant_data_echoes_name_witness:
  "Map.empty (normalize_restaurant_name ''Nowhere'') = (None :: string list option)
   \<and> fetch_restaurant_data Map.empty ''Nowhere'' = [''Nowhere'' \<mapsto> []]"
  using fetch_restaurant_data_echoes_name [of Map.empty "''Nowhere''"] by simp

lemma fetch_restaurant_data_raw_key:
  "fetch_restaurant_data [''applebees'' \<mapsto> [''Fine.'']] ''Applebee'S'' =
     [''Applebee'S'' \<mapsto> [''Fine.'']]"
proof -
  have "normalize_restaurant_name ''Applebee'S'' = ''applebees''" by code_simp
  then show ?thesis by (simp add: fetch_restaurant_data_def)
qed

lemma has_period_space_iff: "has_period_space s \<longleftrightarrow> (\<exists>u v. s = u @ ''. '' @ v)"
proof (induction s rule: has_period_space.induct)
  case (1 c d rest)
  show ?case
  proof
    assume "has_period_space (c # d # rest)"
    then consider "c = CHR ''.'' \<and> d = CHR '' ''" | "has_period_space (d # rest)" by auto
    then show "\<exists>u v. c # d # rest = u @ ''. '' @ v"
    proof cases
      case 1
      then have "c # d # rest = [] @ ''. '' @ rest" by simp
      then show ?thesis by blast
    next
      case 2
      with 1 obtain u v where "d # rest = u @ ''. '' @ v" by auto
      then have "c # d # rest = (c # u) @ ''. '' @ v" by simp
      then show ?thesis by blast
    qed
  next
    assume "\<exists>u v. c # d # rest = u @ ''. '' @ v"
    then obtain u v where uv: "c # d # rest = u @ ''. '' @ v" by blast
    show "has_period_space (c # d # rest)"
    proof (cases u)
      case Nil
      with uv show ?thesis by simp
    next
      case (Cons x u')
      with uv have "d # rest = u' @ ''. '' @ v" by simp
      then have "\<exists>u v. d # rest = u @ ''. '' @ v" by blast
      with 1 have "has_period_space (d # rest)" by blast
      then show ?thesis by simp
    qed
  qed
qed (auto simp: append_eq_Cons_conv)

lemma split_acc_no_delim: "\<not> has_period_space rest \<Longrightarrow> split_acc seen rest = [seen @ rest]"
  by (induction seen rest rule: split_acc.induct) auto

lemma split_acc_first:
  "\<not> has_period_space (a @ ''.'') \<Longrightarrow> split_acc seen (a @ ''. '' @ b) = [seen @ a, b]"
proof (induction a arbitrary: seen)
  case Nil
  show ?case by simp
next
  case (Cons c a)
  show ?case
  proof (cases a)
    case Nil
    with Cons show ?thesis by simp
  next
    case (Cons d a')
    with Cons.prems have nd: "\<not> (c = CHR ''.'' \<and> d = CHR '' '')"
      and rest: "\<not> has_period_space (a @ ''.'')"
      by auto
    from Cons.IH [OF rest, of "seen @ [c]"] nd Cons show ?thesis by simp
  qed
qed

text \<open>Every line that holds the separator is a record split at its leftmost separator.\<close>

lemma has_period_space_decompose:
  "has_period_space line \<Longrightarrow>
   \<exists>a b. line = a @ ''. '' @ b \<and> \<not> has_period_space (a @ ''.'')"
proof (induction line rule: has_period_space.induct)
  case (1 c d rest)
  show ?case
  proof (cases "c = CHR ''.'' \<and> d = CHR '' ''")
    case True
    then have "c # d # rest = [] @ ''. '' @ rest \<and> \<not> has_period_space ([] @ ''.'')" by simp
    then show ?thesis by blast
  next
    case False
    with 1 obtain a b where ab: "d # rest = a @ ''. '' @ b" "\<not> has_period_space (a @ ''.'')"
      by auto
    have "\<not> has_period_space ((c # a) @ ''.'')"
    proof (cases a)
      case Nil
      then show ?thesis by simp
    next
      case (Cons x a')
      with ab have "x = d" by simp
      with Cons ab False show ?thesis by simp
    qed
    moreover from ab have "c # d # rest = (c # a) @ ''. '' @ b" by simp
    ultimately show ?thesis by blast
  qed
qed simp_all

lemma well_formed_corpus_decompose:
  "\<forall>line \<in> set lines. has_period_space line \<Longrightarrow>
   \<exists>recs. lines = map mk_line recs \<and> (\<forall>r \<in> set recs. \<not> has_period_space (fst r @ ''.''))"
proof (induction lines)
  case Nil
  then show ?case by simp
next
  case (Cons line lines)
  then obtain recs where recs: "lines = map mk_line recs"
    "\<forall>r \<in> set recs. \<not> has_period_space (fst r @ ''.'')"
    by auto
  from Cons.prems have "has_period_space line" by simp
  then obtain a b where ab: "line = a @ ''. '' @ b" "\<not> has_period_space (a @ ''.'')"
    using has_period_space_decompose by blast
  with recs have "line # lines = map mk_line ((a, b) # recs)
      \<and> (\<forall>r \<in> set ((a, b) # recs). \<not> has_period_space (fst r @ ''.''))"
    by (simp add: mk_line_def)
  then show ?case by (intro exI [of _ "(a, b) # recs"])
qed

lemma split_period_space_well_formed:
  "\<not> has_period_space (a @ ''.'') \<Longrightarrow> split_period_space (a @ ''. '' @ b) = [a, b]"
  using split_acc_first [of a "[]" b] by (simp add: split_period_space_def)

lemma split_period_space_malformed:
  "\<not> has_period_space line \<Longrightarrow> split_period_space line = [line]"
  using split_acc_no_delim [of line "[]"] by (simp add: split_period_space_def)

lemma add_line_well_formed:
  assumes "\<not> has_period_space (a @ ''.'')"
  shows "add_line h (a @ ''. '' @ b) =
     Inr (h(normalize_restaurant_name a \<mapsto>
            (case h (normalize_restaurant_name a) of None \<Rightarrow> [] | Some rs \<Rightarrow> rs) @ [b]))"
  using split_period_space_well_formed [OF assms, of b]
  by (auto simp: add_line_def Let_def split: option.splits)

lemma add_line_malformed: "\<not> has_period_space line \<Longrightarrow> add_line h line = Inl ValueError"
  by (simp add: add_line_def split_period_space_malformed)

lemma add_line_error: "add_line h line = Inl e \<Longrightarrow> e = ValueError"
  by (auto simp: add_line_def Let_def split: list.splits option.splits if_splits)

lemma load_lines_well_formed:
  "\<forall>r \<in> set recs. \<not> has_period_space (fst r @ ''.'') \<Longrightarrow>
   load_lines h (map mk_line recs) = Inr (extend_index h recs)"
proof (induction recs arbitrary: h)
  case Nil
  have "extend_index h [] = h"
    by (rule ext) (simp add: extend_index_def reviews_for_def split: option.splits)
  then show ?case by simp
next
  case (Cons r recs)
  obtain a b where r: "r = (a, b)" by (cases r)
  from Cons.prems r have a: "\<not> has_period_space (a @ ''.'')" by simp
  let ?k = "normalize_restaurant_name a"
  let ?h = "h(?k \<mapsto> (case h ?k of None \<Rightarrow> [] | Some rs \<Rightarrow> rs) @ [b])"
  have step: "add_line h (mk_line r) = Inr ?h"
    using add_line_well_formed [OF a, of h b] r by (simp add: mk_line_def)
  have "extend_index ?h recs = extend_index h (r # recs)"
    by (rule ext) (auto simp: extend_index_def reviews_for_def r split: option.splits)
  with Cons step show ?case by simp
qed

lemma load_lines_malformed:
  "\<exists>line \<in> set lines. \<not> has_period_space line \<Longrightarrow> \<exists>e. load_lines h lines = Inl e"
  by (induction lines arbitrary: h) (auto simp: add_line_malformed split: sum.splits)

lemma load_lines_error: "load_lines h lines = Inl e \<Longrightarrow> e = ValueError"
  by (induction lines arbitrary: h) (auto split: sum.splits dest: add_line_error)

lemma fetch_index_of:
  "fetch_restaurant_data (index_of recs) name =
     [name \<mapsto> reviews_for (normalize_restaurant_name name) recs]"
  by (simp add: fetch_restaurant_data_def index_of_def)

text \<open>
  C5: when some line of the corpus does not hold the separator, the load raises (the
  \<open>ValueError\<close> of the unpacking, which is the code's malformed-line error) and returns
  no index: the import fails, so no lookup is ever answered from the lines read before.
\<close>

theorem malformed_line_aborts_load:
  assumes "\<exists>line \<in> set lines. \<not> (\<exists>a b. line = a @ ''. '' @ b)"
  shows "fetch_restaurant_reviews_hash lines = Inl ValueError
     \<and> import_then_fetch lines name = Inl ValueError"
proof -
  from assms have "\<exists>line \<in> set lines. \<not> has_period_space line"
    by (simp add: has_period_space_iff)
  then obtain e where e: "load_lines Map.empty lines = Inl e"
    using load_lines_malformed by blast
  then have "e = ValueError" by (rule load_lines_error)
  with e show ?thesis
    by (simp add: fetch_restaurant_reviews_hash_def import_then_fetch_def)
qed

theorem malformed_line_aborts_load_witness:
  "(\<exists>line \<in> set [''Pasta Place. Great food.'', ''Taco Hut has no separator''].
       \<not> (\<exists>a b. line = a @ ''. '' @ b))
   \<and> fetch_restaurant_reviews_hash
        [''Pasta Place. Great food.'', ''Taco Hut has no separator''] = Inl ValueError
   \<and> import_then_fetch
        [''Pasta Place. Great food.'', ''Taco Hut has no separator''] ''Pasta Place''
       = Inl ValueError"
proof -
  have h: "\<exists>line \<in> set [''Pasta Place. Great food.'', ''Taco Hut has no separator''].
      \<not> (\<exists>a b. line = a @ ''. '' @ b)"
    unfolding has_period_space_iff [symmetric] by simp
  from malformed_line_aborts_load [OF h, of "''Pasta Place''"] h show ?thesis by blast
qed

text \<open>
  C3: for a corpus of well-formed lines, each written as a name part, the separator and
  a review text with no earlier separator in the line, the load succeeds and the index
  holds under each normalized name the reviews of its lines in file order; a lookup
  returns that list under the name as given. In particular, when the record of
  \<open>Pasta Place\<close> with the review \<open>Great food.\<close> is the only one whose name normalizes to
  \<open>pastaplace\<close>, looking up \<open>Pasta Place\<close> returns exactly that one review.
\<close>

theorem store_round_trip:
  assumes "\<forall>r \<in> set recs. \<not> has_period_space (fst r @ ''.'')"
  shows "fetch_restaurant_reviews_hash (map mk_line recs) = Inr (index_of recs)
    \<and> import_then_fetch (map mk_line recs) name =
        Inr [name \<mapsto> reviews_for (normalize_restaurant_name name) recs]
    \<and> ((\<exists>pre post. recs = pre @ [(''Pasta Place'', ''Great food.'')] @ post
          \<and> (\<forall>r \<in> set (pre @ post). normalize_restaurant_name (fst r) \<noteq> ''pastaplace''))
        \<longrightarrow> import_then_fetch (map mk_line recs) ''Pasta Place'' =
              Inr [''Pasta Place'' \<mapsto> [''Great food.'']])"
proof -
  have "extend_index Map.empty recs = index_of recs"
    by (rule ext) (simp add: extend_index_def index_of_def)
  with load_lines_well_formed [OF assms, of Map.empty]
  have load: "fetch_restaurant_reviews_hash (map mk_line recs) = Inr (index_of recs)"
    by (simp add: fetch_restaurant_reviews_hash_def)
  then have fetch: "import_then_fetch (map mk_line recs) n =
        Inr [n \<mapsto> reviews_for (normalize_restaurant_name n) recs]" for n
    by (simp add: import_then_fetch_def fetch_index_of)
  have pasta: "normalize_restaurant_name ''Pasta Place'' = ''pastaplace''"
    by code_simp
  have "reviews_for ''pastaplace'' recs = [''Great food.'']"
    if "recs = pre @ [(''Pasta Place'', ''Great food.'')] @ post"
      and "\<forall>r \<in> set (pre @ post). normalize_restaurant_name (fst r) \<noteq> ''pastaplace''"
    for pre post
  proof -
    from that(2) have "filter (\<lambda>r. normalize_restaurant_name (fst r) = ''pastaplace'') pre = []"
      and "filter (\<lambda>r. normalize_restaurant_name (fst r) = ''pastaplace'') post = []"
      by (auto simp: filter_empty_conv)
    with that(1) pasta show ?thesis by (simp add: reviews_for_def)
  qed
  with fetch [of "''Pasta Place''"] pasta load fetch [of name] show ?thesis by auto
qed

theorem store_round_trip_witness:
  "\<not> has_period_space (''Taco Hut'' @ ''.'')
   \<and> \<not> has_period_space (''Pasta Place'' @ ''.'')
   \<and> \<not> has_period_space (''TACO-HUT'' @ ''.'')
   \<and> import_then_fetch
        [''Taco Hut. Fine. Really.'', ''Pasta Place. Great food.'', ''TACO-HUT. Awful.'']
        ''Pasta Place''
       = Inr [''Pasta Place'' \<mapsto> [''Great food.'']]
   \<and> import_then_fetch
        [''Taco Hut. Fine. Really.'', ''Pasta Place. Great food.'', ''TACO-HUT. Awful.'']
        ''taco hut''
       = Inr [''taco hut'' \<mapsto> [''Fine. Really.'', ''Awful.'']]"
proof -
  let ?recs = "[(''Taco Hut'', ''Fine. Really.''), (''Pasta Place'', ''Great food.''),
                (''TACO-HUT'', ''Awful.'')]"
  have h: "\<forall>r \<in> set ?recs. \<not> has_period_space (fst r @ ''.'')" by simp
  have n: "normalize_restaurant_name ''taco hut'' = ''tacohut''"
    "normalize_restaurant_name ''Taco Hut'' = ''tacohut''"
    "normalize_restaurant_name ''TACO-HUT'' = ''tacohut''"
    "normalize_restaurant_name ''Pasta Place'' = ''pastaplace''"
    by code_simp+
  from store_round_trip [OF h, of "''taco hut''"] store_round_trip [OF h, of "''Pasta Place''"] h
  show ?thesis
    by (simp add: mk_line_def reviews_for_def n)
qed

section \<open>Properties of the float rounding\<close>

lemma rhe_near: "\<bar>of_int (round_half_even r) - r\<bar> \<le> 1 / 2"
  unfolding round_half_even_def Let_def by (auto; linarith)

lemma rhe_of_int: "round_half_even (of_int n) = n"
  unfolding round_half_even_def Let_def by simp

lemma rhe_ge: "of_int n \<le> r \<Longrightarrow> n \<le> round_half_even r"
  unfolding round_half_even_def Let_def by (auto simp: le_floor_iff; linarith)

lemma rhe_le: "r \<le> of_int n \<Longrightarrow> round_half_even r \<le> n"
proof (cases "r = of_int n")
  case True
  then show ?thesis by (simp add: rhe_of_int)
next
  case False
  assume "r \<le> of_int n"
  with False have "r < of_int n" by simp
  then have "\<lfloor>r\<rfloor> < n" by (simp add: floor_less_iff)
  then show ?thesis unfolding round_half_even_def Let_def by auto
qed

lemma fl_zero: "fl 0 = Fin 0" by (simp add: fl_def)

lemma fl_binade:
  fixes k :: int
  assumes lo: "2 powr of_int k \<le> x" and hi: "x < 2 powr of_int (k + 1)"
    and k: "- 1022 \<le> k" "k \<le> 1022"
  shows "\<exists>v. fl x = Fin v \<and> \<bar>v - x\<bar> \<le> 2 powr of_int (k - 53)
           \<and> 2 powr of_int k \<le> v \<and> v \<le> 2 powr of_int (k + 1)"
proof -
  have xpos: "0 < x" using lo by (smt (verit) powr_gt_zero)
  have fk: "\<lfloor>log 2 \<bar>x\<bar>\<rfloor> = k"
    using lo hi xpos by (simp add: floor_log_eq_powr_iff)
  define e where "e = k - 52"
  have e: "max (\<lfloor>log 2 \<bar>x\<bar>\<rfloor> - 52) (- 1074) = e" using fk k by (simp add: e_def)
  define p where "p = 2 powr (of_int e :: real)"
  have ppos: "0 < p" by (simp add: p_def)
  define y where "y = x / p"
  define m where "m = round_half_even y"
  have pk: "2 powr (of_int k :: real) = 2 ^ 52 * p"
    unfolding p_def e_def by (simp add: powr_diff)
  have pk1: "2 powr (of_int (k + 1) :: real) = 2 ^ 53 * p"
    unfolding p_def e_def by (simp add: powr_diff powr_add)
  have pk53: "2 powr (of_int (k - 53) :: real) = p / 2"
    unfolding p_def e_def by (simp add: powr_diff)
  have ylo: "of_int (2 ^ 52) \<le> y" using lo pk ppos by (simp add: y_def pos_le_divide_eq)
  have yhi: "y \<le> of_int (2 ^ 53)" using hi pk1 ppos by (simp add: y_def pos_divide_le_eq)
  have mlo: "2 ^ 52 \<le> m" unfolding m_def using ylo by (rule rhe_ge)
  have mhi: "m \<le> 2 ^ 53" unfolding m_def using yhi by (rule rhe_le)
  define v where "v = of_int m * p"
  have near: "\<bar>of_int m - y\<bar> \<le> 1 / 2" unfolding m_def by (rule rhe_near)
  have "v - x = (of_int m - y) * p" using ppos by (simp add: v_def y_def algebra_simps)
  then have "\<bar>v - x\<bar> = \<bar>of_int m - y\<bar> * p" using ppos by (simp add: abs_mult)
  also have "\<dots> \<le> (1 / 2) * p" using near ppos by (intro mult_right_mono) simp_all
  finally have "\<bar>v - x\<bar> \<le> p / 2" by simp
  then have err: "\<bar>v - x\<bar> \<le> 2 powr of_int (k - 53)" unfolding pk53 .
  have vlo: "2 powr of_int k \<le> v"
  proof -
    have "(2 ^ 52 :: real) \<le> of_int m" using mlo by (metis of_int_le_iff of_int_numeral of_int_power)
    then show ?thesis unfolding pk v_def using ppos by (intro mult_right_mono) simp_all
  qed
  have vhi: "v \<le> 2 powr of_int (k + 1)"
  proof -
    have "of_int m \<le> (2 ^ 53 :: real)" using mhi by (metis of_int_le_iff of_int_numeral of_int_power)
    then show ?thesis unfolding pk1 v_def using ppos by (intro mult_right_mono) simp_all
  qed
  have "v \<le> 2 powr 1023"
  proof -
    have "2 powr (of_int (k + 1) :: real) \<le> 2 powr 1023" using k by (intro powr_mono) simp_all
    with vhi show ?thesis by simp
  qed
  moreover have "(2::real) powr 1023 < 2 powr 1024" by (intro powr_less_mono) simp_all
  moreover have "0 < v" using vlo by (smt (verit) powr_gt_zero)
  ultimately have fin: "\<not> 2 powr 1024 \<le> \<bar>v\<bar>" by simp
  have "fl x = Fin v"
    using xpos fin unfolding fl_def e Let_def v_def m_def y_def p_def by simp
  with err vlo vhi show ?thesis by blast
qed

lemma fl_pos:
  assumes lo: "2 powr - 1022 \<le> x" and hi: "x < 2 powr 1023"
  shows "\<exists>v. fl x = Fin v \<and> \<bar>v - x\<bar> \<le> x / 2 ^ 53
           \<and> (\<forall>j::int. 2 powr of_int j \<le> x \<longrightarrow> 2 powr of_int j \<le> v)
           \<and> (\<forall>j::int. x < 2 powr of_int j \<longrightarrow> v \<le> 2 powr of_int j)"
proof -
  have xpos: "0 < x" using lo by (smt (verit) powr_gt_zero)
  define k where "k = \<lfloor>log 2 x\<rfloor>"
  have kb: "2 powr of_int k \<le> x \<and> x < 2 powr of_int (k + 1)"
    using floor_log_eq_powr_iff [of x 2 k] xpos by (simp add: k_def)
  have klo: "- 1022 \<le> k"
  proof -
    have "2 powr (of_int (- 1022) :: real) \<le> x" using lo by simp
    then have "of_int (- 1022) \<le> log 2 x" using xpos by (subst le_log_iff) simp_all
    then show ?thesis unfolding k_def by (simp add: le_floor_iff)
  qed
  have khi: "k \<le> 1022"
  proof -
    have "x < 2 powr (of_int 1023 :: real)" using hi by simp
    then have "log 2 x < of_int 1023" using xpos by (subst log_less_iff) simp_all
    then have "k < 1023" unfolding k_def by (simp add: floor_less_iff)
    then show ?thesis by simp
  qed
  from fl_binade [OF conjunct1 [OF kb] conjunct2 [OF kb] klo khi]
  obtain v where v: "fl x = Fin v" "\<bar>v - x\<bar> \<le> 2 powr of_int (k - 53)"
    "2 powr of_int k \<le> v" "v \<le> 2 powr of_int (k + 1)" by blast
  have "2 powr (of_int (k - 53) :: real) = 2 powr of_int k / 2 ^ 53"
    by (simp add: powr_diff)
  also have "\<dots> \<le> x / 2 ^ 53" using kb by (simp add: divide_right_mono)
  finally have err: "\<bar>v - x\<bar> \<le> x / 2 ^ 53" using v(2) by simp
  have clo: "2 powr of_int j \<le> v" if "2 powr of_int j \<le> x" for j :: int
  proof -
    from that conjunct2 [OF kb] have "2 powr (of_int j :: real) < 2 powr of_int (k + 1)"
      by (rule le_less_trans)
    then have "j < k + 1" by simp
    then have "2 powr (of_int j :: real) \<le> 2 powr of_int k" by (intro powr_mono) simp_all
    then show ?thesis using v(3) by (rule order_trans)
  qed
  have chi: "v \<le> 2 powr of_int j" if "x < 2 powr of_int j" for j :: int
  proof -
    from conjunct1 [OF kb] that have "2 powr (of_int k :: real) < 2 powr of_int j"
      by (rule le_less_trans)
    then have "k + 1 \<le> j" by simp
    then have "2 powr (of_int (k + 1) :: real) \<le> 2 powr of_int j" by (intro powr_mono) simp_all
    with v(4) show ?thesis by (rule order_trans)
  qed
  from v(1) err clo chi show ?thesis by blast
qed

lemma fl_of_int:
  assumes "\<bar>n\<bar> < 2 ^ 53"
  shows "fl (of_int n) = Fin (of_int n)"
proof (cases "n = 0")
  case True
  then show ?thesis by (simp add: fl_zero)
next
  case False
  define x :: real where "x = of_int n"
  have x0: "x \<noteq> 0" using False by (simp add: x_def)
  have ax: "1 \<le> \<bar>x\<bar>" using False unfolding x_def by (metis of_int_abs of_int_1_le_iff zero_less_abs_iff int_one_le_iff_zero_less)
  have axhi: "\<bar>x\<bar> < 2 ^ 53" using assms unfolding x_def
    by (metis of_int_abs of_int_less_iff of_int_numeral of_int_power)
  define k where "k = \<lfloor>log 2 \<bar>x\<bar>\<rfloor>"
  have k0: "0 \<le> k" unfolding k_def using ax by simp
  have "log 2 \<bar>x\<bar> < 53"
  proof -
    have "\<bar>x\<bar> < 2 powr 53" using axhi by simp
    then show ?thesis using ax by (subst log_less_iff) simp_all
  qed
  then have k52: "k \<le> 52" unfolding k_def by (simp add: floor_less_iff)
  define q where "q = nat (52 - k)"
  have e: "max (\<lfloor>log 2 \<bar>x\<bar>\<rfloor> - 52) (- 1074) = - int q"
    using k0 k52 by (simp add: k_def [symmetric] q_def)
  have p: "2 powr (of_int (- int q) :: real) = 1 / 2 ^ q"
    by (simp add: powr_minus powr_realpow divide_simps)
  have y: "x / (1 / 2 ^ q) = of_int (n * 2 ^ q)" by (simp add: x_def)
  have v: "of_int (round_half_even (x / (1 / 2 ^ q))) * (1 / 2 ^ q) = x"
    unfolding y rhe_of_int by (simp add: x_def)
  have "\<bar>x\<bar> < 2 powr 1024"
  proof -
    have "(2::real) ^ 53 = 2 powr 53" by simp
    also have "\<dots> < 2 powr 1024" by (intro powr_less_mono) simp_all
    finally show ?thesis using axhi by simp
  qed
  then have "fl x = Fin x"
    using x0 unfolding fl_def e Let_def p v by simp
  then show ?thesis by (simp add: x_def)
qed

lemma rhe_eq: "of_int n - 1 / 2 < r \<Longrightarrow> r < of_int n + 1 / 2 \<Longrightarrow> round_half_even r = n"
  unfolding round_half_even_def Let_def by (auto; linarith)

lemma float_of_int_small: "\<bar>n\<bar> < 2 ^ 53 \<Longrightarrow> float_of_int n = Inr (Fin (of_int n))"
  by (simp add: float_of_int_def fl_of_int)

lemma fl_mid:
  assumes "1 / 1024 \<le> x" "x \<le> 1024"
  shows "\<exists>v. fl x = Fin v \<and> x - x / 10 ^ 12 \<le> v \<and> v \<le> x + x / 10 ^ 12"
proof -
  have "(2::real) powr - 1022 \<le> 2 powr - 10" by (intro powr_mono) simp_all
  also have "\<dots> = 1 / 1024" by (simp add: powr_minus divide_simps)
  finally have lo: "2 powr - 1022 \<le> x" using assms by simp
  have "(1024::real) = 2 powr 10" by simp
  also have "\<dots> < 2 powr 1023" by (intro powr_less_mono) simp_all
  finally have hi: "x < 2 powr 1023" using assms by simp
  from fl_pos [OF lo hi] obtain v where v: "fl x = Fin v" "\<bar>v - x\<bar> \<le> x / 2 ^ 53" by blast
  have "0 < x" using assms by simp
  then have "x / 2 ^ 53 \<le> x / 10 ^ 12" by (simp add: divide_simps)
  with v(2) have "\<bar>v - x\<bar> \<le> x / 10 ^ 12" by (rule order_trans)
  then have "x - x / 10 ^ 12 \<le> v \<and> v \<le> x + x / 10 ^ 12" by linarith
  with v(1) show ?thesis by blast
qed

lemma math_sqrt_1: "math_sqrt 1 = Inr (Fin 1)"
  using fl_of_int [of 1] by (simp add: math_sqrt_def float_of_int_small)

lemma str_nat_0: "str_nat 0 = ''0''" by (simp add: str_nat.simps digit_char_def) code_simp
lemma str_nat_10: "str_nat 10 = ''10''" by code_simp

lemma format_894: "format_3f (Fin r) = ''0.894''" if "893.5 < r * 1000" "r * 1000 < 894.5"
proof -
  have "round_half_even (r * 1000) = 894" using that by (intro rhe_eq) simp_all
  moreover have "0 \<le> r" using that by simp
  moreover have "str_nat 0 @ ''.'' @ [digit_char 8, digit_char 9, digit_char 4] = ''0.894''" by code_simp
  ultimately show ?thesis by (simp add: format_3f_def)
qed

lemma fl_rel:
  assumes "1 / 1024 \<le> x" "x \<le> 1024"
  shows "\<exists>v. fl x = Fin v \<and> x * (1 - 1 / 10 ^ 12) \<le> v \<and> v \<le> x * (1 + 1 / 10 ^ 12)"
proof -
  from fl_mid [OF assms] obtain v where "fl x = Fin v" "x - x / 10 ^ 12 \<le> v" "v \<le> x + x / 10 ^ 12"
    by blast
  then have "fl x = Fin v \<and> x * (1 - 1 / 10 ^ 12) \<le> v \<and> v \<le> x * (1 + 1 / 10 ^ 12)"
    by (simp add: algebra_simps)
  then show ?thesis by blast
qed

lemma sqrt_125_bounds: "11.1803 < sqrt 125" "sqrt 125 < 11.1804"
proof -
  show "11.1803 < sqrt 125" by (rule real_less_rsqrt) (simp add: power2_eq_square)
  show "sqrt 125 < 11.1804" by (rule real_less_lsqrt) (simp_all add: power2_eq_square)
qed

lemma math_sqrt_125:
  "\<exists>s. math_sqrt 125 = Inr (Fin s) \<and> 11.18 \<le> s \<and> s \<le> 11.181"
proof -
  have f: "float_of_int 125 = Inr (Fin 125)" using float_of_int_small [of 125] by simp
  have "1 / 1024 \<le> sqrt 125" "sqrt 125 \<le> 1024" using sqrt_125_bounds by simp_all
  from fl_rel [OF this] obtain s where s: "fl (sqrt 125) = Fin s"
    "sqrt 125 * (1 - 1 / 10 ^ 12) \<le> s" "s \<le> sqrt 125 * (1 + 1 / 10 ^ 12)" by blast
  have "11.18 \<le> sqrt 125 * (1 - 1 / 10 ^ 12)" using sqrt_125_bounds(1) by simp
  moreover have "sqrt 125 * (1 + 1 / 10 ^ 12) \<le> 11.181" using sqrt_125_bounds(2) by simp
  ultimately have "11.18 \<le> s \<and> s \<le> 11.181" using s by linarith
  moreover have "math_sqrt 125 = Inr (Fin s)" by (simp add: math_sqrt_def f s)
  ultimately show ?thesis by blast
qed

lemma score_loop_single:
  "math_sqrt (f ^ 2 * c) = Inr r \<Longrightarrow>
   score_loop [f] (c # cs) (Suc 0) 0 t = Inr (fadd t r)"
  by (subst score_loop.simps, simp add: list_get_def) (subst score_loop.simps, simp)

lemma score_loop_single_error:
  "math_sqrt (f ^ 2 * c) = Inl e \<Longrightarrow> score_loop [f] (c # cs) (Suc 0) 0 t = Inl e"
  by (subst score_loop.simps, simp add: list_get_def)

lemma format_10000: "format_3f (Fin r) = ''10.000''" if "9999.5 < r * 1000" "r * 1000 < 10000.5"
proof -
  have "round_half_even (r * 1000) = 10000" using that by (intro rhe_eq) simp_all
  moreover have "0 \<le> r" using that by simp
  moreover have "str_nat 10 @ ''.'' @ [digit_char 0, digit_char 0, digit_char 0] = ''10.000''" by code_simp
  ultimately show ?thesis by (simp add: format_3f_def)
qed

lemma score_one_one:
  "calculate_overall_score name [1] (1 # cs) = Inr [name \<mapsto> ''0.894'']"
proof -
  have loop: "score_loop [1] (1 # cs) (Suc 0) 0 (Fin 0) = Inr (Fin 1)"
    using score_loop_single [of 1 1 "Fin 1" cs "Fin 0"] math_sqrt_1 fl_of_int [of 1] by simp
  have ten: "float_of_int 10 = Inr (Fin 10)" using float_of_int_small [of 10] by simp
  have one: "float_of_int 1 = Inr (Fin 1)" using float_of_int_small [of 1] by simp
  have num: "fl 10 = Fin 10" using fl_of_int [of 10] by simp
  obtain s where s: "math_sqrt 125 = Inr (Fin s)" "11.18 \<le> s" "s \<le> 11.181"
    using math_sqrt_125 by blast
  have "1 / 1024 \<le> s" "s \<le> 1024" using s by simp_all
  from fl_rel [OF this] obtain d where d: "fl s = Fin d"
    "s * (1 - 1 / 10 ^ 12) \<le> d" "d \<le> s * (1 + 1 / 10 ^ 12)" by blast
  have dlo: "11.1799 \<le> d"
  proof -
    have "11.1799 \<le> 11.18 * (1 - 1 / 10 ^ 12 :: real)" by simp
    also have "\<dots> \<le> s * (1 - 1 / 10 ^ 12)" using s(2) by (intro mult_right_mono) simp_all
    finally show ?thesis using d(2) by simp
  qed
  have dhi: "d \<le> 11.182"
  proof -
    have "s * (1 + 1 / 10 ^ 12) \<le> 11.181 * (1 + 1 / 10 ^ 12 :: real)"
      using s(3) by (intro mult_right_mono) simp_all
    also have "\<dots> \<le> 11.182" by simp
    finally show ?thesis using d(3) by simp
  qed
  have dpos: "0 < d" using dlo by simp
  have qlo: "0.8942 \<le> 10 / d" using dhi dpos by (simp add: pos_le_divide_eq)
  have qhi: "10 / d \<le> 0.89447" using dlo dpos by (simp add: pos_divide_le_eq)
  have "1 / 1024 \<le> 10 / d" "10 / d \<le> 1024" using qlo qhi by simp_all
  from fl_rel [OF this] obtain r where r: "fl (10 / d) = Fin r"
    "10 / d * (1 - 1 / 10 ^ 12) \<le> r" "r \<le> 10 / d * (1 + 1 / 10 ^ 12)" by blast
  have rlo: "0.8941 \<le> r"
  proof -
    have "0.8941 \<le> 0.8942 * (1 - 1 / 10 ^ 12 :: real)" by simp
    also have "\<dots> \<le> 10 / d * (1 - 1 / 10 ^ 12)" using qlo by (intro mult_right_mono) simp_all
    finally show ?thesis using r(2) by simp
  qed
  have rhi: "r \<le> 0.89448"
  proof -
    have "10 / d * (1 + 1 / 10 ^ 12) \<le> 0.89447 * (1 + 1 / 10 ^ 12 :: real)"
      using qhi by (intro mult_right_mono) simp_all
    also have "\<dots> \<le> 0.89448" by simp
    finally show ?thesis using r(3) by simp
  qed
  have dnz: "d \<noteq> 0" using dpos by simp
  have fmt: "format_3f (Fin r) = ''0.894''" using rlo rhi by (intro format_894) simp_all
  show ?thesis
    by (simp add: calculate_overall_score_def loop ten one num s d(1) dnz r(1) fmt)
qed

section \<open>Properties of the scorer\<close>

lemma score_five_five:
  "calculate_overall_score name [5] (5 # cs) = Inr [name \<mapsto> ''10.000'']"
proof -
  obtain s where s: "math_sqrt 125 = Inr (Fin s)" "11.18 \<le> s" "s \<le> 11.181"
    using math_sqrt_125 by blast
  have "1 / 1024 \<le> s" "s \<le> 1024" using s by simp_all
  from fl_rel [OF this] obtain d where d: "fl s = Fin d"
    "s * (1 - 1 / 10 ^ 12) \<le> d" "d \<le> s * (1 + 1 / 10 ^ 12)" by blast
  have dlo: "11 \<le> d"
  proof -
    have "11 \<le> 11.18 * (1 - 1 / 10 ^ 12 :: real)" by simp
    also have "\<dots> \<le> s * (1 - 1 / 10 ^ 12)" using s(2) by (intro mult_right_mono) simp_all
    finally show ?thesis using d(2) by simp
  qed
  have dhi: "d \<le> 12"
  proof -
    have "s * (1 + 1 / 10 ^ 12) \<le> 11.181 * (1 + 1 / 10 ^ 12 :: real)"
      using s(3) by (intro mult_right_mono) simp_all
    also have "\<dots> \<le> 12" by simp
    finally show ?thesis using d(3) by simp
  qed
  have dpos: "0 < d" and dnz: "d \<noteq> 0" using dlo by simp_all
  have loop: "score_loop [5] (5 # cs) (Suc 0) 0 (Fin 0) = Inr (Fin d)"
    using score_loop_single [of 5 5 "Fin s" cs "Fin 0"] s(1) d(1) by simp
  have ten: "float_of_int 10 = Inr (Fin 10)" using float_of_int_small [of 10] by simp
  have one: "float_of_int 1 = Inr (Fin 1)" using float_of_int_small [of 1] by simp
  have "1 / 1024 \<le> d * 10" "d * 10 \<le> 1024" using dlo dhi by simp_all
  from fl_rel [OF this] obtain p where p: "fl (d * 10) = Fin p"
    "d * 10 * (1 - 1 / 10 ^ 12) \<le> p" "p \<le> d * 10 * (1 + 1 / 10 ^ 12)" by blast
  define q where "q = p / d"
  have qlo: "10 * (1 - 1 / 10 ^ 12) \<le> q"
    unfolding q_def using p(2) dpos by (simp add: pos_le_divide_eq algebra_simps)
  have qhi: "q \<le> 10 * (1 + 1 / 10 ^ 12)"
    unfolding q_def using p(3) dpos by (simp add: pos_divide_le_eq algebra_simps)
  have "1 / 1024 \<le> q" "q \<le> 1024" using qlo qhi by simp_all
  from fl_rel [OF this] obtain r where r: "fl q = Fin r"
    "q * (1 - 1 / 10 ^ 12) \<le> r" "r \<le> q * (1 + 1 / 10 ^ 12)" by blast
  have rlo: "9.9999 \<le> r"
  proof -
    have "9.9999 \<le> 10 * (1 - 1 / 10 ^ 12) * (1 - 1 / 10 ^ 12 :: real)" by simp
    also have "\<dots> \<le> q * (1 - 1 / 10 ^ 12)" using qlo by (intro mult_right_mono) simp_all
    finally show ?thesis using r(2) by simp
  qed
  have rhi: "r \<le> 10.0001"
  proof -
    have "q * (1 + 1 / 10 ^ 12) \<le> 10 * (1 + 1 / 10 ^ 12) * (1 + 1 / 10 ^ 12 :: real)"
      using qhi by (intro mult_right_mono) simp_all
    also have "\<dots> \<le> 10.0001" by simp
    finally show ?thesis using r(3) by simp
  qed
  have r1: "fl (p / d) = Fin r" using r(1) by (simp add: q_def)
  have fmt: "format_3f (Fin r) = ''10.000''" using rlo rhi by (intro format_10000) simp_all
  show ?thesis
    by (simp add: calculate_overall_score_def loop ten one s d(1) p(1) dnz r1 fmt)
qed

lemma math_sqrt_negative: "math_sqrt (- 1) = Inl ValueError"
  using float_of_int_small [of "- 1"] by (simp add: math_sqrt_def)

lemma score_negative_service:
  "calculate_overall_score name [1] (- 1 # cs) = Inl ValueError"
  using score_loop_single_error [of 1 "- 1" ValueError cs "Fin 0"] math_sqrt_negative
  by (simp add: calculate_overall_score_def)

lemma score_loop_done: "score_loop fs cs N N t = Inr t"
  by (subst score_loop.simps) simp

lemma score_empty_food: "calculate_overall_score name [] cs = Inl ZeroDivisionError"
proof -
  obtain s where s: "math_sqrt 125 = Inr (Fin s)" using math_sqrt_125 by blast
  have ten: "float_of_int 10 = Inr (Fin 10)" using float_of_int_small [of 10] by simp
  have zero: "float_of_int 0 = Inr (Fin 0)" using float_of_int_small [of 0] by simp
  show ?thesis
    by (simp add: calculate_overall_score_def score_loop_done ten zero s fl_zero)
qed

lemma score_loop_short:
  "i \<le> N \<Longrightarrow> length cs < N \<Longrightarrow> i \<le> length cs \<Longrightarrow> \<exists>e. score_loop fs cs N i t = Inl e"
proof (induction fs cs N i t rule: score_loop.induct)
  case (1 fs cs N i t)
  show ?case
  proof (cases "i < length cs")
    case False
    with 1(2-4) have "i = length cs" "i < N" by simp_all
    then show ?thesis
      by (subst score_loop.simps) (simp add: list_get_def split: sum.splits)
  next
    case True
    with 1(3) have iN: "i < N" by simp
    show ?thesis
    proof (cases "list_get fs i")
      case (Inl e)
      with iN show ?thesis by (subst score_loop.simps) simp
    next
      case (Inr f)
      show ?thesis
      proof (cases "math_sqrt (f ^ 2 * (cs ! i))")
        case (Inl e)
        with iN Inr True show ?thesis by (subst score_loop.simps) (simp add: list_get_def)
      next
        case r: (Inr r)
        have g: "list_get cs i = Inr (cs ! i)" using True by (simp add: list_get_def)
        from "1.IH" [OF iN Inr g r] iN True 1(3)
        have "\<exists>e. score_loop fs cs N (i + 1) (fadd t r) = Inl e" by simp
        then show ?thesis using iN Inr g r by (subst score_loop.simps) simp
      qed
    qed
  qed
qed

lemma score_short_service:
  assumes "length cs < length fs"
  shows "\<exists>e. calculate_overall_score name fs cs = Inl e"
proof -
  from score_loop_short [of 0 "length fs" cs fs "Fin 0"] assms
  obtain e where "score_loop fs cs (length fs) 0 (Fin 0) = Inl e" by auto
  then show ?thesis by (simp add: calculate_overall_score_def)
qed

lemma score_loop_take:
  "N \<le> length cs \<Longrightarrow> score_loop fs (take N cs) N i t = score_loop fs cs N i t"
proof (induction fs cs N i t rule: score_loop.induct)
  case (1 fs cs N i t)
  show ?case
  proof (cases "i < N")
    case False
    then show ?thesis by (simp add: score_loop.simps [of _ _ N i])
  next
    case iN: True
    with 1(2) have g: "list_get (take N cs) i = Inr (cs ! i)" "list_get cs i = Inr (cs ! i)"
      by (simp_all add: list_get_def)
    show ?thesis
    proof (cases "list_get fs i")
      case (Inl e)
      with iN show ?thesis by (simp add: score_loop.simps [of _ _ N i])
    next
      case (Inr f)
      show ?thesis
      proof (cases "math_sqrt (f ^ 2 * (cs ! i))")
        case (Inl e)
        with iN Inr g show ?thesis by (simp add: score_loop.simps [of _ _ N i])
      next
        case r: (Inr r)
        from "1.IH" [OF iN Inr g(2) r 1(2)] iN Inr g r show ?thesis
          by (simp add: score_loop.simps [of _ _ N i])
      qed
    qed
  qed
qed

lemma score_truncates:
  "length fs \<le> length cs \<Longrightarrow>
   calculate_overall_score name fs cs = calculate_overall_score name fs (take (length fs) cs)"
  by (simp add: calculate_overall_score_def score_loop_take)

section \<open>Accuracy of the score\<close>

lemma rel_low_bounds: "0 < rel_low" "rel_low \<le> 1" "rel_low < 1" "1 / 2 \<le> rel_low"
  by (simp_all add: rel_low_def)

lemma fl_round:
  assumes lo: "2 powr - 1022 \<le> x" and hi: "x < 2 powr 1023"
  shows "\<exists>v. fl x = Fin v \<and> x * rel_low \<le> v \<and> v * rel_low \<le> x \<and> (1 \<le> x \<longrightarrow> 1 \<le> v)"
proof -
  from fl_pos [OF lo hi] obtain v where v: "fl x = Fin v" "\<bar>v - x\<bar> \<le> x / 2 ^ 53"
    and c: "\<forall>j::int. 2 powr of_int j \<le> x \<longrightarrow> 2 powr of_int j \<le> v" by blast
  have xpos: "0 < x" using lo by (smt (verit) powr_gt_zero)
  define u :: real where "u = 1 / 2 ^ 53"
  have u: "0 < u" "u < 1" by (simp_all add: u_def)
  have a: "rel_low = 1 - u" by (simp add: rel_low_def u_def)
  have e: "\<bar>v - x\<bar> \<le> x * u" using v(2) by (simp add: u_def)
  then have l: "x * (1 - u) \<le> v" and h: "v \<le> x * (1 + u)"
    by (simp_all add: algebra_simps abs_le_iff)
  have "v * (1 - u) \<le> x * (1 + u) * (1 - u)" using h u by (intro mult_right_mono) simp_all
  also have "\<dots> = x - x * u * u" by (simp add: algebra_simps)
  also have "\<dots> \<le> x" using xpos u by simp
  finally have h': "v * (1 - u) \<le> x" .
  have one: "1 \<le> v" if "1 \<le> x"
  proof -
    from that have "2 powr (of_int 0 :: real) \<le> x" by simp
    with c have "2 powr (of_int 0 :: real) \<le> v" by blast
    then show ?thesis by simp
  qed
  from v(1) l h' one show ?thesis unfolding a by blast
qed

lemma fl_round_mid:
  assumes "1 \<le> x" "x \<le> 2 ^ 1002"
  shows "\<exists>v. fl x = Fin v \<and> x * rel_low \<le> v \<and> v * rel_low \<le> x \<and> 1 \<le> v"
proof -
  have "(2::real) powr - 1022 \<le> 2 powr 0" by (intro powr_mono) simp_all
  then have lo: "2 powr - 1022 \<le> x" using assms(1) by simp
  have "(2::real) ^ 1002 = 2 powr 1002" by simp
  also have "\<dots> < 2 powr 1023" by (intro powr_less_mono) simp_all
  finally have hi: "x < 2 powr 1023" using assms(2) by simp
  from fl_round [OF lo hi] assms(1) show ?thesis by blast
qed

lemma rel_low_pow_half:
  assumes "k \<le> 2 ^ 52"
  shows "1 / 2 \<le> rel_low ^ k"
proof -
  have "1 + real k * (- (1 / 2 ^ 53)) \<le> (1 + (- (1 / 2 ^ 53)) :: real) ^ k"
    by (rule Bernoulli_inequality) simp
  moreover have "real k \<le> 2 ^ 52" using assms by (metis of_nat_le_iff of_nat_numeral of_nat_power)
  then have "real k * (1 / 2 ^ 53) \<le> 1 / 2" by simp
  ultimately show ?thesis by (simp add: rel_low_def)
qed

lemma rel_low_pow_le_one: "rel_low ^ k \<le> 1"
  using rel_low_bounds by (intro power_le_one) simp_all

lemma rel_low_pow_pos: "0 < rel_low ^ k"
  using rel_low_bounds by (intro zero_less_power)

lemma rel_low_pow_mono: "j \<le> k \<Longrightarrow> rel_low ^ k \<le> rel_low ^ j"
  using rel_low_bounds by (intro power_decreasing) simp_all

text \<open>The square root of an integer product within range, as \<open>math.sqrt\<close> computes it.\<close>

lemma math_sqrt_term:
  assumes "0 \<le> p" "p \<le> 2 ^ 1000"
  shows "\<exists>r. math_sqrt p = Inr (Fin r)
           \<and> sqrt (of_int p) * rel_low ^ 2 \<le> r \<and> r * rel_low ^ 2 \<le> sqrt (of_int p)
           \<and> (r = 0 \<or> 1 \<le> r) \<and> r \<le> 2 ^ 502"
proof (cases "p = 0")
  case True
  have "float_of_int 0 = Inr (Fin 0)" by (simp add: float_of_int_def fl_zero)
  then have "math_sqrt 0 = Inr (Fin 0)" by (simp add: math_sqrt_def fl_zero)
  with True show ?thesis by simp
next
  case False
  define x :: real where "x = of_int p"
  define a where "a = rel_low"
  have a: "0 < a" "a \<le> 1" "1 / 2 \<le> a" using rel_low_bounds by (simp_all add: a_def)
  have x1: "1 \<le> x" using False assms(1) by (simp add: x_def)
  have xhi: "x \<le> 2 ^ 1000" unfolding x_def using assms(2)
    by (metis of_int_le_iff of_int_numeral of_int_power)
  have "(2::real) ^ 1000 \<le> 2 ^ 1002" by (intro power_increasing) simp_all
  with xhi have "x \<le> 2 ^ 1002" by simp
  from fl_round_mid [OF x1 this] obtain y where y: "fl x = Fin y" "x * a \<le> y" "y * a \<le> x" "1 \<le> y"
    unfolding a_def by blast
  have conv: "float_of_int p = Inr (Fin y)" by (simp add: float_of_int_def x_def [symmetric] y(1))
  have ypos: "0 \<le> y" using y(4) by simp
  have yhi: "y \<le> 2 ^ 1002"
  proof -
    have "y * (1 / 2) \<le> y * a" using a ypos by (intro mult_left_mono) simp_all
    also have "\<dots> \<le> 2 ^ 1000" using y(3) xhi by simp
    finally have "y \<le> 2 * 2 ^ 1000" by simp
    also have "\<dots> \<le> (2::real) ^ 1002" by simp
    finally show ?thesis .
  qed
  have s1: "1 \<le> sqrt y" using y(4) by simp
  have shi: "sqrt y \<le> 2 ^ 1002"
  proof -
    have "sqrt y \<le> y" using y(4) by (simp add: sqrt_le_D power2_eq_square real_le_lsqrt)
    with yhi show ?thesis by simp
  qed
  from fl_round_mid [OF s1 shi] obtain r where r: "fl (sqrt y) = Fin r"
    "sqrt y * a \<le> r" "r * a \<le> sqrt y" "1 \<le> r" unfolding a_def by blast
  have res: "math_sqrt p = Inr (Fin r)" using ypos y(4) by (simp add: math_sqrt_def conv r(1))
  have lo1: "sqrt x * a \<le> sqrt y"
  proof (rule real_le_rsqrt)
    have "(sqrt x * a)\<^sup>2 = x * a * a" using x1 by (simp add: power2_eq_square algebra_simps)
    also have "\<dots> \<le> x * a * 1" using a x1 by (intro mult_left_mono) simp_all
    also have "\<dots> \<le> y" using y(2) by simp
    finally show "(sqrt x * a)\<^sup>2 \<le> y" .
  qed
  have hi1: "sqrt y * a \<le> sqrt x"
  proof (rule real_le_rsqrt)
    have "(sqrt y * a)\<^sup>2 = y * a * a" using ypos by (simp add: power2_eq_square algebra_simps)
    also have "\<dots> \<le> x * a" using y(3) a by (intro mult_right_mono) simp_all
    also have "\<dots> \<le> x * 1" using a x1 by (intro mult_left_mono) simp_all
    finally show "(sqrt y * a)\<^sup>2 \<le> x" by simp
  qed
  have lo: "sqrt x * a ^ 2 \<le> r"
  proof -
    have "sqrt x * a ^ 2 = sqrt x * a * a" by (simp add: power2_eq_square)
    also have "\<dots> \<le> sqrt y * a" using lo1 a by (intro mult_right_mono) simp_all
    also have "\<dots> \<le> r" by (rule r(2))
    finally show ?thesis .
  qed
  have hi: "r * a ^ 2 \<le> sqrt x"
  proof -
    have "r * a ^ 2 = r * a * a" by (simp add: power2_eq_square)
    also have "\<dots> \<le> sqrt y * a" using r(3) a by (intro mult_right_mono) simp_all
    also have "\<dots> \<le> sqrt x" by (rule hi1)
    finally show ?thesis .
  qed
  have sx: "sqrt x \<le> 2 ^ 500"
  proof (rule real_le_lsqrt)
    show "x \<le> (2 ^ 500)\<^sup>2" using xhi by (simp add: power_mult [symmetric])
  qed simp
  have rhi: "r \<le> 2 ^ 502"
  proof -
    have "1 / 4 \<le> a ^ 2"
    proof -
      have "(1 / 2) ^ 2 \<le> a ^ 2" using a by (intro power_mono) simp_all
      then show ?thesis by (simp add: power2_eq_square)
    qed
    moreover have "0 \<le> r" using r(4) by simp
    ultimately have "r * (1 / 4) \<le> r * a ^ 2" by (intro mult_left_mono) simp_all
    also have "\<dots> \<le> 2 ^ 500" using hi sx by simp
    finally have "r \<le> 4 * 2 ^ 500" by simp
    also have "\<dots> = (2::real) ^ 502" by simp
    finally show ?thesis .
  qed
  from res lo hi r(4) rhi show ?thesis unfolding x_def a_def by blast
qed

lemma score_loop_step:
  assumes "i < N" "i < length fs" "i < length cs"
    and "math_sqrt ((fs ! i) ^ 2 * cs ! i) = Inr r"
  shows "score_loop fs cs N i t = score_loop fs cs N (i + 1) (fadd t r)"
  using assms by (subst score_loop.simps) (simp add: list_get_def)

lemma score_loop_accurate:
  fixes fs cs :: "int list"
  defines "S \<equiv> \<lambda>i. (\<Sum>j < i. sqrt (of_int ((fs ! j) ^ 2 * cs ! j)))"
  assumes len: "length fs = N" "N \<le> length cs"
    and N: "N \<le> 2 ^ 50"
    and prods: "\<forall>j < N. 0 \<le> (fs ! j) ^ 2 * cs ! j \<and> (fs ! j) ^ 2 * cs ! j \<le> 2 ^ 1000"
  shows "i \<le> N \<Longrightarrow> S i * rel_low ^ (i + 2) \<le> t \<Longrightarrow> t * rel_low ^ (i + 2) \<le> S i \<Longrightarrow>
         t = 0 \<or> 1 \<le> t \<Longrightarrow>
         \<exists>T. score_loop fs cs N i (Fin t) = Inr (Fin T)
           \<and> S N * rel_low ^ (N + 2) \<le> T \<and> T * rel_low ^ (N + 2) \<le> S N \<and> (T = 0 \<or> 1 \<le> T)"
proof (induction "N - i" arbitrary: i t)
  case 0
  then have "i = N" by simp
  with 0 show ?case by (simp add: score_loop_done)
next
  case (Suc d)
  define a where "a = rel_low"
  have a: "0 < a" "a \<le> 1" using rel_low_bounds by (simp_all add: a_def)
  from Suc.hyps(2) have iN: "i < N" by simp
  define p where "p = (fs ! i) ^ 2 * cs ! i"
  define e where "e = sqrt (of_int p)"
  from prods iN have p: "0 \<le> p" "p \<le> 2 ^ 1000" unfolding p_def by blast+
  have e0: "0 \<le> e" unfolding e_def using p(1) by simp
  have Ssuc: "S (i + 1) = S i + e" "S (Suc i) = S i + e" by (simp_all add: S_def e_def p_def)
  from math_sqrt_term [OF p] obtain r where r: "math_sqrt p = Inr (Fin r)"
    "e * a ^ 2 \<le> r" "r * a ^ 2 \<le> e" "r = 0 \<or> 1 \<le> r" "r \<le> 2 ^ 502"
    unfolding e_def a_def by blast
  have r0: "0 \<le> r" using r(4) by auto
  have t0: "0 \<le> t" using Suc.prems(4) by auto
  have step: "score_loop fs cs N i (Fin t) = score_loop fs cs N (i + 1) (fl (t + r))"
    using score_loop_step [of i N fs cs "Fin r" "Fin t"] iN len r(1) by (simp add: p_def)
  have inv_lo: "S i * a ^ (i + 2) \<le> t" and inv_hi: "t * a ^ (i + 2) \<le> S i"
    using Suc.prems by (simp_all add: a_def)
  have pow2: "a ^ (i + 2) \<le> a ^ 2" unfolding a_def by (rule rel_low_pow_mono) simp
  have powpos: "0 < a ^ k" for k unfolding a_def by (rule rel_low_pow_pos)
  have lo_sum: "(S i + e) * a ^ (i + 2) \<le> t + r"
  proof -
    have "e * a ^ (i + 2) \<le> e * a ^ 2" using pow2 e0 by (intro mult_left_mono)
    with r(2) inv_lo show ?thesis by (simp add: algebra_simps)
  qed
  have hi_sum: "(t + r) * a ^ (i + 2) \<le> S i + e"
  proof -
    have "r * a ^ (i + 2) \<le> r * a ^ 2" using pow2 r0 by (intro mult_left_mono)
    with r(3) inv_hi show ?thesis by (simp add: algebra_simps)
  qed
  have "\<exists>t'. fl (t + r) = Fin t' \<and> (t + r) * a \<le> t' \<and> t' * a \<le> t + r \<and> (t' = 0 \<or> 1 \<le> t')"
  proof (cases "t + r = 0")
    case True
    then show ?thesis by (simp add: fl_zero)
  next
    case False
    with Suc.prems(4) r(4) r0 t0 have ge1: "1 \<le> t + r" by auto
    have half: "1 / 2 \<le> a ^ (i + 2)"
    proof -
      have "i + 2 \<le> 2 ^ 50 + 2" using iN N by simp
      also have "\<dots> \<le> (2::nat) ^ 52" by simp
      finally show ?thesis unfolding a_def by (rule rel_low_pow_half)
    qed
    have "S i \<le> real (card {..<i}) * 2 ^ 500" unfolding S_def
    proof (rule sum_bounded_above)
      fix j assume "j \<in> {..<i}"
      with iN have "j < N" by simp
      with prods have "(fs ! j) ^ 2 * cs ! j \<le> 2 ^ 1000" by blast
      then have "(of_int ((fs ! j) ^ 2 * cs ! j) :: real) \<le> 2 ^ 1000"
        by (metis of_int_le_iff of_int_numeral of_int_power)
      then show "sqrt (of_int ((fs ! j) ^ 2 * cs ! j)) \<le> 2 ^ 500"
        by (intro real_le_lsqrt) (simp_all add: power_mult [symmetric])
    qed
    moreover have "real i \<le> 2 ^ 50" using iN N
      by (metis of_nat_le_iff of_nat_numeral of_nat_power less_imp_le order_trans)
    ultimately have Si: "S i \<le> 2 ^ 50 * 2 ^ 500"
      by (simp add: mult_right_mono order_trans)
    have "t * (1 / 2) \<le> t * a ^ (i + 2)" using half t0 by (intro mult_left_mono)
    also have "\<dots> \<le> 2 ^ 50 * 2 ^ 500" using inv_hi Si by simp
    finally have "t \<le> 2 * (2 ^ 50 * 2 ^ 500)" by simp
    also have "\<dots> = (2::real) ^ 551" by (simp add: power_add [symmetric])
    finally have thi: "t \<le> 2 ^ 551" .
    have "t + r \<le> 2 ^ 551 + 2 ^ 502" using thi r(5) by simp
    also have "\<dots> \<le> (2::real) ^ 1002"
    proof -
      have "(2::real) ^ 551 \<le> 2 ^ 1001" "(2::real) ^ 502 \<le> 2 ^ 1001"
        by (intro power_increasing; simp)+
      then have "(2::real) ^ 551 + 2 ^ 502 \<le> 2 * 2 ^ 1001" by simp
      then show ?thesis by simp
    qed
    finally have hi: "t + r \<le> 2 ^ 1002" .
    from fl_round_mid [OF ge1 hi] show ?thesis unfolding a_def by blast
  qed
  then obtain t' where t': "fl (t + r) = Fin t'" "(t + r) * a \<le> t'" "t' * a \<le> t + r"
    "t' = 0 \<or> 1 \<le> t'" by blast
  have new_lo: "S (i + 1) * rel_low ^ (i + 1 + 2) \<le> t'"
  proof -
    have "S (i + 1) * a ^ (i + 1 + 2) = (S i + e) * a ^ (i + 2) * a" by (simp add: Ssuc)
    also have "\<dots> \<le> (t + r) * a" using lo_sum a by (intro mult_right_mono) simp_all
    also have "\<dots> \<le> t'" by (rule t'(2))
    finally show ?thesis by (simp add: a_def)
  qed
  have new_hi: "t' * rel_low ^ (i + 1 + 2) \<le> S (i + 1)"
  proof -
    have "t' * a ^ (i + 1 + 2) = t' * a * a ^ (i + 2)" by simp
    also have "\<dots> \<le> (t + r) * a ^ (i + 2)" using t'(3) powpos [of "i + 2"]
      by (intro mult_right_mono) simp_all
    also have "\<dots> \<le> S i + e" by (rule hi_sum)
    finally show ?thesis by (simp add: a_def Ssuc)
  qed
  have d: "d = N - (i + 1)" using Suc.hyps(2) by simp
  have "i + 1 \<le> N" using iN by simp
  from Suc.hyps(1) [OF d this new_lo new_hi t'(4)] step t'(1) show ?case by simp
qed

lemma is_digit_digit_char: "d < 10 \<Longrightarrow> is_digit (digit_char d)"
  by (simp add: is_digit_def digit_char_def)

lemma str_nat_digits: "str_nat n \<noteq> [] \<and> list_all is_digit (str_nat n)"
proof (induction n rule: str_nat.induct)
  case (1 n)
  show ?case
  proof (cases "n < 10")
    case True
    then show ?thesis by (subst (1 2) str_nat.simps) (simp add: is_digit_digit_char)
  next
    case False
    with 1 show ?thesis by (subst (1 2) str_nat.simps) (simp add: is_digit_digit_char)
  qed
qed

lemma format_3f_three_decimals: "0 \<le> v \<Longrightarrow> three_decimals (format_3f (Fin v))"
proof -
  assume v: "0 \<le> v"
  define n where "n = nat \<bar>round_half_even (v * 1000)\<bar>"
  define fp where "fp = [digit_char (n div 100 mod 10), digit_char (n div 10 mod 10),
    digit_char (n mod 10)]"
  have f: "format_3f (Fin v) = str_nat (n div 1000) @ ''.'' @ fp"
    using v by (simp add: format_3f_def n_def fp_def Let_def)
  have "length fp = 3" "list_all is_digit fp"
    by (simp_all add: fp_def is_digit_digit_char)
  with str_nat_digits [of "n div 1000"] f show ?thesis
    unfolding three_decimals_def by (intro exI [of _ "str_nat (n div 1000)"] exI [of _ fp]) simp
qed

lemma fl_round_nonneg:
  assumes "x = 0 \<or> 1 \<le> x" "x \<le> 2 ^ 1002"
  shows "\<exists>v. fl x = Fin v \<and> x * rel_low \<le> v \<and> v * rel_low \<le> x \<and> (v = 0 \<or> 1 \<le> v)"
proof (cases "x = 0")
  case True
  then show ?thesis by (simp add: fl_zero)
next
  case False
  with assms(1) have "1 \<le> x" by simp
  from fl_round_mid [OF this assms(2)] show ?thesis by blast
qed

lemma twice_of_rel_low:
  assumes "0 \<le> v" "v * rel_low \<le> x"
  shows "v \<le> 2 * x"
proof -
  have "v * (1 / 2) \<le> v * rel_low" using rel_low_bounds assms(1) by (intro mult_left_mono) simp_all
  with assms(2) show ?thesis by simp
qed

lemma score_accurate:
  fixes fs cs :: "int list"
  assumes ne: "fs \<noteq> []" and len: "length cs = length fs" and N: "length fs \<le> 2 ^ 50"
    and prods: "\<forall>j < length fs. 0 \<le> (fs ! j) ^ 2 * cs ! j \<and> (fs ! j) ^ 2 * cs ! j \<le> 2 ^ 1000"
  shows "\<exists>v. calculate_overall_score name fs cs = Inr [name \<mapsto> format_3f (Fin v)]
           \<and> 0 \<le> v
           \<and> exact_score fs cs * rel_low ^ (length fs + 6) \<le> v
           \<and> v * rel_low ^ (length fs + 6) \<le> exact_score fs cs"
proof -
  define n where "n = length fs"
  define a where "a = rel_low"
  define S where "S = (\<Sum>j < n. sqrt (of_int ((fs ! j) ^ 2 * cs ! j)))"
  define \<rho> :: real where "\<rho> = sqrt 125"
  have a: "0 < a" "a \<le> 1" "1 / 2 \<le> a" using rel_low_bounds by (simp_all add: a_def)
  have apow: "0 < a ^ k" for k unfolding a_def by (rule rel_low_pow_pos)
  have n1: "1 \<le> n" using ne by (cases fs) (simp_all add: n_def)
  have nhi: "real n \<le> 2 ^ 50" using N unfolding n_def
    by (metis of_nat_le_iff of_nat_numeral of_nat_power)
  have \<rho>: "11 \<le> \<rho>" "\<rho> \<le> 12" using sqrt_125_bounds by (simp_all add: \<rho>_def)
  have S0: "0 \<le> S" unfolding S_def
  proof (rule sum_nonneg)
    fix j assume "j \<in> {..<n}"
    then have "j < length fs" by (simp add: n_def)
    with prods have "0 \<le> (fs ! j) ^ 2 * cs ! j" by blast
    then show "0 \<le> sqrt (of_int ((fs ! j) ^ 2 * cs ! j))"
      by (simp only: real_sqrt_ge_0_iff of_int_0_le_iff)
  qed
  have Shi: "S \<le> 2 ^ 50 * 2 ^ 500"
  proof -
    have "S \<le> real (card {..<n}) * 2 ^ 500" unfolding S_def
    proof (rule sum_bounded_above)
      fix j assume "j \<in> {..<n}"
      then have "j < length fs" by (simp add: n_def)
      with prods have "(fs ! j) ^ 2 * cs ! j \<le> 2 ^ 1000" by blast
      then have "(of_int ((fs ! j) ^ 2 * cs ! j) :: real) \<le> 2 ^ 1000"
        by (metis of_int_le_iff of_int_numeral of_int_power)
      then show "sqrt (of_int ((fs ! j) ^ 2 * cs ! j)) \<le> 2 ^ 500"
        by (intro real_le_lsqrt) (simp_all add: power_mult [symmetric])
    qed
    with nhi show ?thesis by (simp add: mult_right_mono order_trans)
  qed
  \<comment> \<open>the loop\<close>
  have "\<exists>T. score_loop fs cs n 0 (Fin 0) = Inr (Fin T)
      \<and> S * a ^ (n + 2) \<le> T \<and> T * a ^ (n + 2) \<le> S \<and> (T = 0 \<or> 1 \<le> T)"
    unfolding S_def a_def
    by (rule score_loop_accurate) (use len N prods in \<open>simp_all add: n_def\<close>)
  then obtain T where T: "score_loop fs cs n 0 (Fin 0) = Inr (Fin T)"
    "S * a ^ (n + 2) \<le> T" "T * a ^ (n + 2) \<le> S" "T = 0 \<or> 1 \<le> T" by blast
  have T0: "0 \<le> T" using T(4) by auto
  have Thi: "T \<le> 2 ^ 551"
  proof -
    have "n + 2 \<le> 2 ^ 50 + 2" using N by (simp add: n_def)
    also have "\<dots> \<le> (2::nat) ^ 52" by simp
    finally have "1 / 2 \<le> a ^ (n + 2)" unfolding a_def by (rule rel_low_pow_half)
    then have "T * (1 / 2) \<le> T * a ^ (n + 2)" using T0 by (intro mult_left_mono)
    also have "\<dots> \<le> 2 ^ 50 * 2 ^ 500" using T(3) Shi by simp
    finally have "T \<le> 2 * (2 ^ 50 * 2 ^ 500)" by simp
    also have "\<dots> = (2::real) ^ 551" by (simp add: power_add [symmetric])
    finally show ?thesis .
  qed
  \<comment> \<open>the numerator\<close>
  have ten: "float_of_int 10 = Inr (Fin 10)" using float_of_int_small [of 10] by simp
  have "T * 10 = 0 \<or> 1 \<le> T * 10" using T(4) by auto
  moreover have "T * 10 \<le> 2 ^ 1002"
  proof -
    have "T * 10 \<le> 2 ^ 551 * 2 ^ 4" using Thi T0 by (intro mult_mono) simp_all
    also have "\<dots> = (2::real) ^ 555" by (simp add: power_add [symmetric])
    also have "\<dots> \<le> 2 ^ 1002" by (intro power_increasing) simp_all
    finally show ?thesis .
  qed
  ultimately obtain A where A: "fl (T * 10) = Fin A" "T * 10 * a \<le> A" "A * a \<le> T * 10"
    "A = 0 \<or> 1 \<le> A" using fl_round_nonneg unfolding a_def by blast
  have A0: "0 \<le> A" using A(4) by auto
  have Ahi: "A \<le> 2 ^ 556"
  proof -
    have "A \<le> 2 * (T * 10)" using A0 A(3) unfolding a_def by (rule twice_of_rel_low)
    also have "\<dots> \<le> 2 * (2 ^ 551 * 2 ^ 4)" using Thi by simp
    also have "\<dots> = (2::real) ^ 556" by (simp add: power_add [symmetric])
    finally show ?thesis .
  qed
  \<comment> \<open>the denominator\<close>
  have c125: "float_of_int 125 = Inr (Fin 125)" using float_of_int_small [of 125] by simp
  have "1 \<le> \<rho>" "\<rho> \<le> 2 ^ 1002"
  proof -
    show "1 \<le> \<rho>" using \<rho> by simp
    have "(12::real) \<le> 2 ^ 4" by simp
    also have "\<dots> \<le> 2 ^ 1002" by (intro power_increasing) simp_all
    finally show "\<rho> \<le> 2 ^ 1002" using \<rho> by simp
  qed
  from fl_round_mid [OF this] obtain c where c: "fl \<rho> = Fin c" "\<rho> * a \<le> c" "c * a \<le> \<rho>"
    "1 \<le> c" unfolding a_def by blast
  have root: "math_sqrt 125 = Inr (Fin c)"
    using c(1) by (simp add: math_sqrt_def c125 \<rho>_def)
  have chi: "c \<le> 24"
  proof -
    have "c \<le> 2 * \<rho>" using c(3) c(4) unfolding a_def by (intro twice_of_rel_low) simp_all
    with \<rho> show ?thesis by simp
  qed
  have conv: "float_of_int (int n) = Inr (Fin (real n))"
  proof -
    have "n \<le> 2 ^ 50" using N by (simp add: n_def)
    also have "\<dots> < (2::nat) ^ 53" by simp
    finally have "int n < 2 ^ 53" by (metis of_nat_less_iff of_nat_numeral of_nat_power)
    then have "\<bar>int n\<bar> < 2 ^ 53" by simp
    from float_of_int_small [OF this] show ?thesis by simp
  qed
  have nc1: "1 \<le> real n * c"
  proof -
    have "1 * 1 \<le> real n * c" using n1 c(4) by (intro mult_mono) simp_all
    then show ?thesis by simp
  qed
  have nchi: "real n * c \<le> 2 ^ 1002"
  proof -
    have "real n * c \<le> 2 ^ 50 * 2 ^ 5" using nhi chi c(4) by (intro mult_mono) simp_all
    also have "\<dots> = (2::real) ^ 55" by (simp add: power_add [symmetric])
    also have "\<dots> \<le> 2 ^ 1002" by (intro power_increasing) simp_all
    finally show ?thesis .
  qed
  from fl_round_mid [OF nc1 nchi] obtain D where D: "fl (real n * c) = Fin D"
    "real n * c * a \<le> D" "D * a \<le> real n * c" "1 \<le> D" unfolding a_def by blast
  have Dpos: "0 < D" using D(4) by simp
  have Dhi: "D \<le> 2 ^ 56"
  proof -
    have "D \<le> 2 * (real n * c)" using D(3) D(4) unfolding a_def
      by (intro twice_of_rel_low) simp_all
    also have "\<dots> \<le> 2 * (2 ^ 50 * 2 ^ 5)" using nhi chi c(4) by (intro mult_left_mono mult_mono) simp_all
    also have "\<dots> = (2::real) ^ 56" by (simp add: power_add [symmetric])
    finally show ?thesis .
  qed
  \<comment> \<open>the quotient\<close>
  have "\<exists>v. fl (A / D) = Fin v \<and> A / D * a \<le> v \<and> v * a \<le> A / D \<and> 0 \<le> v"
  proof (cases "A = 0")
    case True
    then show ?thesis by (simp add: fl_zero)
  next
    case False
    with A(4) have A1: "1 \<le> A" by simp
    have lo: "2 powr - 1022 \<le> A / D"
    proof -
      have "(2::real) powr - 1022 \<le> 2 powr - 56" by (intro powr_mono) simp_all
      also have "\<dots> = 1 / 2 ^ 56" by (simp add: powr_minus divide_simps)
      also have "\<dots> \<le> 1 / D" using Dhi Dpos by (simp add: frac_le)
      also have "\<dots> \<le> A / D" using A1 Dpos by (simp add: divide_right_mono)
      finally show ?thesis .
    qed
    have hi: "A / D < 2 powr 1023"
    proof -
      have "A / D \<le> A / 1" using D(4) A0 by (intro divide_left_mono) simp_all
      also have "\<dots> \<le> 2 ^ 556" using Ahi by simp
      also have "\<dots> = 2 powr 556" by simp
      also have "\<dots> < 2 powr 1023" by (intro powr_less_mono) simp_all
      finally show ?thesis .
    qed
    from fl_round [OF lo hi] obtain v where v: "fl (A / D) = Fin v" "A / D * a \<le> v"
      "v * a \<le> A / D" unfolding a_def by blast
    have "0 \<le> A / D * a" using A0 Dpos a by simp
    with v show ?thesis by (intro exI [of _ v]) simp
  qed
  then obtain v where v: "fl (A / D) = Fin v" "A / D * a \<le> v" "v * a \<le> A / D" "0 \<le> v"
    by blast
  have result: "calculate_overall_score name fs cs = Inr [name \<mapsto> format_3f (Fin v)]"
    using Dpos
    by (simp add: calculate_overall_score_def n_def [symmetric] T(1) ten root conv A(1) D(1) v(1))
  \<comment> \<open>the accuracy\<close>
  define E where "E = S * 10 / (real n * \<rho>)"
  have E: "exact_score fs cs = E"
    by (simp add: exact_score_def E_def S_def n_def \<rho>_def)
  have n\<rho>: "0 < real n * \<rho>" using n1 \<rho> by simp
  have D_le: "D * a ^ 2 \<le> real n * \<rho>"
  proof -
    have "D * a ^ 2 = D * a * a" by (simp add: power2_eq_square)
    also have "\<dots> \<le> real n * c * a" using D(3) a by (intro mult_right_mono) simp_all
    also have "\<dots> = real n * (c * a)" by simp
    also have "\<dots> \<le> real n * \<rho>" using c(3) by (intro mult_left_mono) simp_all
    finally show ?thesis .
  qed
  have D_ge: "real n * \<rho> * a ^ 2 \<le> D"
  proof -
    have "real n * \<rho> * a ^ 2 = real n * (\<rho> * a) * a" by (simp add: power2_eq_square)
    also have "\<dots> \<le> real n * c * a" using c(2) a by (intro mult_right_mono mult_left_mono) simp_all
    also have "\<dots> \<le> D" by (rule D(2))
    finally show ?thesis .
  qed
  define P where "P = a ^ (n + 2)"
  define Q where "Q = a ^ 2"
  have Ppos: "0 < P" unfolding P_def by (rule apow)
  have pw: "a ^ (n + 6) = P * a * a * Q"
  proof -
    have eq: "n + 6 = (n + 2) + 1 + 1 + 2" by arith
    show ?thesis unfolding P_def Q_def by (subst eq) (simp only: power_add power_one_right)
  qed
  have TP: "S * P \<le> T" "T * P \<le> S" using T(2,3) by (simp_all add: P_def)
  have DQ: "D * Q \<le> real n * \<rho>" "real n * \<rho> * Q \<le> D" using D_le D_ge by (simp_all add: Q_def)
  have lower: "E * a ^ (n + 6) \<le> v"
  proof -
    have "S * 10 * (P * a * a * Q) * D = (S * P * 10 * a) * a * (D * Q)"
      by (simp add: algebra_simps)
    also have "\<dots> \<le> (T * 10 * a) * a * (D * Q)"
    proof -
      have "0 \<le> D * Q" using DQ(2) n\<rho> Dpos unfolding Q_def by simp
      moreover have "S * P * 10 * a \<le> T * 10 * a" using TP(1) a by simp
      ultimately show ?thesis using a by (intro mult_right_mono) simp_all
    qed
    also have "\<dots> \<le> A * a * (D * Q)"
    proof -
      have "0 \<le> D * Q" using Dpos unfolding Q_def by simp
      then show ?thesis using A(2) a by (intro mult_right_mono) simp_all
    qed
    also have "\<dots> \<le> A * a * (real n * \<rho>)"
      using DQ(1) A0 a by (intro mult_left_mono) simp_all
    finally have "S * 10 * (P * a * a * Q) * D \<le> A * a * (real n * \<rho>)" .
    then have "S * 10 * (P * a * a * Q) / (real n * \<rho>) \<le> A * a / D"
      using Dpos n\<rho> by (simp add: field_simps)
    then have "E * a ^ (n + 6) \<le> A / D * a" unfolding pw by (simp add: E_def)
    with v(2) show ?thesis by simp
  qed
  have upper: "v * a ^ (n + 6) \<le> E"
  proof -
    have vD: "v * a * D \<le> A" using v(3) Dpos by (simp add: pos_le_divide_eq)
    have va: "0 \<le> v * a" using v(4) a by simp
    have "v * (P * a * a * Q) * (real n * \<rho>) = (v * a) * (real n * \<rho> * Q) * (a * P)"
      by (simp add: algebra_simps)
    also have "\<dots> \<le> (v * a) * D * (a * P)"
      using DQ(2) va a Ppos by (intro mult_right_mono mult_left_mono) simp_all
    also have "\<dots> \<le> A * (a * P)"
      using vD a Ppos by (intro mult_right_mono) simp_all
    also have "\<dots> = A * a * P" by simp
    also have "\<dots> \<le> T * 10 * P"
      using A(3) Ppos by (intro mult_right_mono) simp_all
    also have "\<dots> = T * P * 10" by simp
    also have "\<dots> \<le> S * 10" using TP(2) by simp
    finally have "v * (P * a * a * Q) * (real n * \<rho>) \<le> S * 10" .
    then show ?thesis unfolding pw using n\<rho> by (simp add: E_def pos_le_divide_eq)
  qed
  from result v(4) lower upper show ?thesis
    unfolding E a_def n_def by blast
qed

text \<open>
  C1, as the code has it: for non-empty lists of equal length in which every product
  \<open>food_scores[i]^2 * customer_service_scores[i]\<close> is non-negative (and within the range
  where the float arithmetic cannot overflow: every product at most \<open>2^1000\<close>, at most
  \<open>2^50\<close> elements), the call returns the dictionary from the name to a string with
  exactly three digits after the point. The string is the rendering of the float \<open>v\<close>
  that the code computes for the formula, and \<open>v\<close> differs from the exact value of the
  formula by the roundings of the \<open>N + 6\<close> operations only.
\<close>

theorem score_formula:
  assumes "food_scores \<noteq> []"
    and "length customer_service_scores = length food_scores"
    and "length food_scores \<le> 2 ^ 50"
    and "\<forall>i < length food_scores.
           0 \<le> (food_scores ! i) ^ 2 * customer_service_scores ! i
           \<and> (food_scores ! i) ^ 2 * customer_service_scores ! i \<le> 2 ^ 1000"
  shows "\<exists>v. calculate_overall_score name food_scores customer_service_scores =
                Inr [name \<mapsto> format_3f (Fin v)]
           \<and> three_decimals (format_3f (Fin v))
           \<and> exact_score food_scores customer_service_scores
               * (1 - 1 / 2 ^ 53) ^ (length food_scores + 6) \<le> v
           \<and> v * (1 - 1 / 2 ^ 53) ^ (length food_scores + 6)
               \<le> exact_score food_scores customer_service_scores"
proof -
  from score_accurate [OF assms, of name] obtain v where
    v: "calculate_overall_score name food_scores customer_service_scores =
          Inr [name \<mapsto> format_3f (Fin v)]"
      "0 \<le> v"
      "exact_score food_scores customer_service_scores * rel_low ^ (length food_scores + 6) \<le> v"
      "v * rel_low ^ (length food_scores + 6) \<le> exact_score food_scores customer_service_scores"
    by blast
  from v(2) have "three_decimals (format_3f (Fin v))" by (rule format_3f_three_decimals)
  with v(1,3,4) show ?thesis unfolding rel_low_def by blast
qed

theorem score_formula_witness:
  "calculate_overall_score ''Applebee's'' [5] [5] = Inr [''Applebee's'' \<mapsto> ''10.000'']
   \<and> three_decimals ''10.000''"
proof -
  have h1: "[5 :: int] \<noteq> []" and h2: "length [5 :: int] = length [5 :: int]"
    and h3: "length [5 :: int] \<le> 2 ^ 50" by simp_all
  have h4: "\<forall>i < length [5 :: int]. 0 \<le> ([5] ! i) ^ 2 * [5 :: int] ! i
      \<and> ([5] ! i) ^ 2 * [5 :: int] ! i \<le> 2 ^ 1000"
    by simp
  from score_formula [OF h1 h2 h3 h4, of "''Applebee's''"] obtain v where
    v: "calculate_overall_score ''Applebee's'' [5] [5] = Inr [''Applebee's'' \<mapsto> format_3f (Fin v)]"
      "three_decimals (format_3f (Fin v))"
    by blast
  have five: "calculate_overall_score ''Applebee's'' [5] [5] = Inr [''Applebee's'' \<mapsto> ''10.000'']"
    by (rule score_five_five)
  with v(1) have "[''Applebee's'' \<mapsto> format_3f (Fin v)] = [''Applebee's'' \<mapsto> ''10.000'']"
    by simp
  then have "format_3f (Fin v) = ''10.000''" by (rule map_upd_eqD1)
  with v(2) five show ?thesis by simp
qed

text \<open>
  C1 as stated fails: for the non-empty lists of equal length \<open>[1]\<close> and \<open>[-1]\<close> the
  product is negative and \<open>math.sqrt\<close> raises \<open>ValueError\<close>; no score is returned.
\<close>

theorem score_formula_counterexample:
  "calculate_overall_score ''Applebee's'' [1] [- 1] = Inl ValueError"
  by (rule score_negative_service)

section \<open>The boundary cases and the length of the lists\<close>

text \<open>
  C8: for food score 5 and service score 5 the result is the string \<open>10.000\<close>, for every
  restaurant name.
\<close>

theorem score_maximum_case:
  "calculate_overall_score name [5] [5] = Inr [name \<mapsto> ''10.000'']"
  by (rule score_five_five)

text \<open>
  C9, as the code has it: for food score 1 and service score 1 the result is the string
  \<open>0.894\<close>, the three-digit rendering of \<open>10 / sqrt 125\<close>, for every restaurant name.
\<close>

theorem score_minimum_case:
  "calculate_overall_score name [1] [1] = Inr [name \<mapsto> ''0.894'']"
  by (rule score_one_one)

text \<open>C9 as stated fails: the result for the scores 1 and 1 is not \<open>2.000\<close>.\<close>

theorem score_minimum_case_counterexample:
  "calculate_overall_score ''Applebee's'' [1] [1] \<noteq> Inr [''Applebee's'' \<mapsto> ''2.000'']"
proof
  assume "calculate_overall_score ''Applebee's'' [1] [1] = Inr [''Applebee's'' \<mapsto> ''2.000'']"
  then have "[''Applebee's'' \<mapsto> ''0.894''] = [''Applebee's'' \<mapsto> ''2.000'']"
    by (simp add: score_one_one)
  then have "[''Applebee's'' \<mapsto> ''0.894''] ''Applebee's'' = [''Applebee's'' \<mapsto> ''2.000''] ''Applebee's''"
    by (rule arg_cong)
  then show False by simp
qed

lemma score_loop_error_at:
  assumes k: "k < N" "k < length fs" "k < length cs"
    and e: "math_sqrt ((fs ! k) ^ 2 * cs ! k) = Inl e"
  shows "i \<le> k \<Longrightarrow>
         \<forall>j. i \<le> j \<and> j < k \<longrightarrow> (\<exists>r. math_sqrt ((fs ! j) ^ 2 * cs ! j) = Inr r) \<Longrightarrow>
         score_loop fs cs N i t = Inl e"
proof (induction "k - i" arbitrary: i t)
  case 0
  then have "i = k" by simp
  with k e show ?case by (subst score_loop.simps) (simp add: list_get_def)
next
  case (Suc d)
  then have ik: "i < k" by simp
  with Suc.prems(2) obtain r where r: "math_sqrt ((fs ! i) ^ 2 * cs ! i) = Inr r" by blast
  have step: "score_loop fs cs N i t = score_loop fs cs N (i + 1) (fadd t r)"
    using ik k r by (intro score_loop_step) simp_all
  have d: "d = k - (i + 1)" using Suc.hyps(2) by simp
  have le: "i + 1 \<le> k" using ik by simp
  have rest: "\<forall>j. i + 1 \<le> j \<and> j < k \<longrightarrow> (\<exists>r. math_sqrt ((fs ! j) ^ 2 * cs ! j) = Inr r)"
    using Suc.prems(2) by simp
  from Suc.hyps(1) [OF d le rest] step show ?case by simp
qed

lemma score_loop_index_error:
  assumes len: "length cs < N" "N \<le> length fs"
  shows "i \<le> length cs \<Longrightarrow>
         \<forall>j. i \<le> j \<and> j < length cs \<longrightarrow> (\<exists>r. math_sqrt ((fs ! j) ^ 2 * cs ! j) = Inr r) \<Longrightarrow>
         score_loop fs cs N i t = Inl IndexError"
proof (induction "length cs - i" arbitrary: i t)
  case 0
  then have "i = length cs" by simp
  with len show ?case by (subst score_loop.simps) (simp add: list_get_def)
next
  case (Suc d)
  then have ik: "i < length cs" by simp
  with Suc.prems(2) obtain r where r: "math_sqrt ((fs ! i) ^ 2 * cs ! i) = Inr r" by blast
  have step: "score_loop fs cs N i t = score_loop fs cs N (i + 1) (fadd t r)"
    using ik len r by (intro score_loop_step) simp_all
  have d: "d = length cs - (i + 1)" using Suc.hyps(2) by simp
  have le: "i + 1 \<le> length cs" using ik by simp
  have rest: "\<forall>j. i + 1 \<le> j \<and> j < length cs \<longrightarrow>
      (\<exists>r. math_sqrt ((fs ! j) ^ 2 * cs ! j) = Inr r)"
    using Suc.prems(2) by simp
  from Suc.hyps(1) [OF d le rest] step show ?case by simp
qed

lemma score_short_index_error:
  assumes "length cs < length fs"
    and "\<forall>i < length cs. \<exists>r. math_sqrt ((fs ! i) ^ 2 * cs ! i) = Inr r"
  shows "calculate_overall_score name fs cs = Inl IndexError"
proof -
  have "score_loop fs cs (length fs) 0 (Fin 0) = Inl IndexError"
    using assms by (intro score_loop_index_error) simp_all
  then show ?thesis by (simp add: calculate_overall_score_def)
qed

lemma score_first_error:
  assumes "k < length fs" "k < length cs"
    and "\<forall>j < k. \<exists>r. math_sqrt ((fs ! j) ^ 2 * cs ! j) = Inr r"
    and "math_sqrt ((fs ! k) ^ 2 * cs ! k) = Inl e"
  shows "calculate_overall_score name fs cs = Inl e"
proof -
  have "score_loop fs cs (length fs) 0 (Fin 0) = Inl e"
    using assms by (intro score_loop_error_at [where k = k]) simp_all
  then show ?thesis by (simp add: calculate_overall_score_def)
qed

text \<open>
  The square root of a product raises \<open>ValueError\<close> (a negative product) or
  \<open>OverflowError\<close> (a product beyond the range of the floats), and nothing else.
\<close>

lemma math_sqrt_errors: "math_sqrt p = Inl e \<Longrightarrow> e = ValueError \<or> e = OverflowError"
  by (auto simp: math_sqrt_def float_of_int_def split: pyfloat.splits if_splits)

text \<open>
  C2, as the code has it: there is no length check and no \<open>ScoreInputError\<close>. With an
  empty \<open>food_scores\<close> (so also when both lists are empty) the division raises
  \<open>ZeroDivisionError\<close>. With \<open>customer_service_scores\<close> shorter than \<open>food_scores\<close> the
  call always raises: the \<open>IndexError\<close> of the first missing index when the square root
  succeeds for every index before it, and otherwise the error of the first index whose
  square root raises. With \<open>customer_service_scores\<close> longer than \<open>food_scores\<close> the call
  does what it does on the list cut to the length of \<open>food_scores\<close>.
\<close>

theorem score_length_mismatch:
  "(food_scores = [] \<longrightarrow>
      calculate_overall_score name food_scores customer_service_scores = Inl ZeroDivisionError)
   \<and> (length customer_service_scores < length food_scores \<longrightarrow>
      (\<exists>e. calculate_overall_score name food_scores customer_service_scores = Inl e))
   \<and> (length customer_service_scores < length food_scores \<longrightarrow>
      (\<forall>i < length customer_service_scores.
         \<exists>r. math_sqrt ((food_scores ! i) ^ 2 * customer_service_scores ! i) = Inr r) \<longrightarrow>
      calculate_overall_score name food_scores customer_service_scores = Inl IndexError)
   \<and> (\<forall>k e. k < length food_scores \<and> k < length customer_service_scores
        \<and> (\<forall>j < k. \<exists>r. math_sqrt ((food_scores ! j) ^ 2 * customer_service_scores ! j) = Inr r)
        \<and> math_sqrt ((food_scores ! k) ^ 2 * customer_service_scores ! k) = Inl e \<longrightarrow>
      calculate_overall_score name food_scores customer_service_scores = Inl e)
   \<and> (length food_scores < length customer_service_scores \<longrightarrow>
      calculate_overall_score name food_scores customer_service_scores =
      calculate_overall_score name food_scores
        (take (length food_scores) customer_service_scores))"
proof (intro conjI impI allI)
  assume "food_scores = []"
  then show "calculate_overall_score name food_scores customer_service_scores =
      Inl ZeroDivisionError"
    by (simp add: score_empty_food)
next
  assume "length customer_service_scores < length food_scores"
  then show "\<exists>e. calculate_overall_score name food_scores customer_service_scores = Inl e"
    by (rule score_short_service)
next
  assume "length customer_service_scores < length food_scores"
    and "\<forall>i < length customer_service_scores.
      \<exists>r. math_sqrt ((food_scores ! i) ^ 2 * customer_service_scores ! i) = Inr r"
  then show "calculate_overall_score name food_scores customer_service_scores = Inl IndexError"
    by (rule score_short_index_error)
next
  fix k e
  assume a: "k < length food_scores \<and> k < length customer_service_scores
    \<and> (\<forall>j < k. \<exists>r. math_sqrt ((food_scores ! j) ^ 2 * customer_service_scores ! j) = Inr r)
    \<and> math_sqrt ((food_scores ! k) ^ 2 * customer_service_scores ! k) = Inl e"
  then have "k < length food_scores" "k < length customer_service_scores"
    "\<forall>j < k. \<exists>r. math_sqrt ((food_scores ! j) ^ 2 * customer_service_scores ! j) = Inr r"
    "math_sqrt ((food_scores ! k) ^ 2 * customer_service_scores ! k) = Inl e"
    by blast+
  then show "calculate_overall_score name food_scores customer_service_scores = Inl e"
    by (rule score_first_error)
next
  assume "length food_scores < length customer_service_scores"
  then have "length food_scores \<le> length customer_service_scores" by simp
  then show "calculate_overall_score name food_scores customer_service_scores =
      calculate_overall_score name food_scores
        (take (length food_scores) customer_service_scores)"
    by (rule score_truncates)
qed

theorem score_length_mismatch_witness:
  "calculate_overall_score ''Applebee's'' [] [] = Inl ZeroDivisionError
   \<and> calculate_overall_score ''Applebee's'' [1, 1] [1] = Inl IndexError
   \<and> calculate_overall_score ''Applebee's'' [1, 1] [- 1] = Inl ValueError
   \<and> calculate_overall_score ''Applebee's'' [1] [1, 2] =
       calculate_overall_score ''Applebee's'' [1] [1]"
proof -
  have empty: "calculate_overall_score ''Applebee's'' [] [] = Inl ZeroDivisionError"
    using score_length_mismatch [of "[]" "''Applebee's''" "[]"] by simp
  have ok: "\<forall>i < length [1 :: int]. \<exists>r. math_sqrt (([1, 1] ! i) ^ 2 * [1] ! i) = Inr r"
    by (simp add: math_sqrt_1)
  have short: "calculate_overall_score ''Applebee's'' [1, 1] [1] = Inl IndexError"
    using score_length_mismatch [of "[1, 1]" "''Applebee's''" "[1]"] ok by simp
  have bad: "(0 :: nat) < length [1, 1 :: int] \<and> (0 :: nat) < length [- 1 :: int]
      \<and> (\<forall>j < (0 :: nat). \<exists>r. math_sqrt (([1, 1] ! j) ^ 2 * [- 1] ! j) = Inr r)
      \<and> math_sqrt (([1, 1] ! 0) ^ 2 * [- 1] ! 0) = Inl ValueError"
    by (simp add: math_sqrt_negative)
  have "\<forall>k e. k < length [1, 1 :: int] \<and> k < length [- 1 :: int]
      \<and> (\<forall>j < k. \<exists>r. math_sqrt (([1, 1] ! j) ^ 2 * [- 1] ! j) = Inr r)
      \<and> math_sqrt (([1, 1] ! k) ^ 2 * [- 1] ! k) = Inl e \<longrightarrow>
      calculate_overall_score ''Applebee's'' [1, 1] [- 1] = Inl e"
    using score_length_mismatch [of "[1, 1]" "''Applebee's''" "[- 1]"] by blast
  with bad have negative: "calculate_overall_score ''Applebee's'' [1, 1] [- 1] = Inl ValueError"
    by blast
  have long: "calculate_overall_score ''Applebee's'' [1] [1, 2] =
      calculate_overall_score ''Applebee's'' [1] [1]"
    using score_length_mismatch [of "[1]" "''Applebee's''" "[1, 2]"] by simp
  from empty short negative long show ?thesis by blast
qed

text \<open>
  C2 as stated fails: with one food score and two service scores the call returns a
  score, computed from the first service score alone.
\<close>

theorem score_length_mismatch_counterexample:
  "calculate_overall_score ''Applebee's'' [1] [1, 2] = Inr [''Applebee's'' \<mapsto> ''0.894'']"
  by (rule score_one_one)

text \<open>
  C10, as the code has it: when \<open>food_scores\<close> is not empty and \<open>customer_service_scores\<close>
  is longer, the call has exactly the outcome, a score or an error, of the call on
  \<open>customer_service_scores\<close> cut to the length of \<open>food_scores\<close>: the values beyond that
  length are never read, and they cause no error.
\<close>

theorem score_ignores_extra_service_scores:
  assumes "food_scores \<noteq> []"
    and "length food_scores < length customer_service_scores"
  shows "calculate_overall_score name food_scores customer_service_scores =
     calculate_overall_score name food_scores
       (take (length food_scores) customer_service_scores)"
proof -
  from assms(2) have "length food_scores \<le> length customer_service_scores" by simp
  then show ?thesis by (rule score_truncates)
qed

theorem score_ignores_extra_service_scores_witness:
  "[1 :: int] \<noteq> [] \<and> length [1 :: int] < length [1, 2 :: int]
   \<and> calculate_overall_score ''Applebee's'' [1] [1, 2] = Inr [''Applebee's'' \<mapsto> ''0.894'']"
  using score_ignores_extra_service_scores [of "[1]" "[1, 2]" "''Applebee's''"]
    score_one_one [of "''Applebee's''" "[]"]
  by simp

text \<open>
  C10 as stated fails: the call does not always succeed. With a negative service score
  in range the square root raises \<open>ValueError\<close>, also when the list is the longer one.
\<close>

theorem score_ignores_extra_service_scores_counterexample:
  "calculate_overall_score ''Applebee's'' [1] [- 1, 2] = Inl ValueError"
  by (rule score_negative_service)

section \<open>Properties of the coordinator\<close>

lemma run_turns_extends: "\<exists>ext. run_turns answer ask n history = history @ ext"
proof (induction n arbitrary: history)
  case 0
  show ?case by simp
next
  case (Suc n)
  obtain response finished where a: "answer history = (response, finished)"
    by (cases "answer history")
  show ?case
  proof (cases "finished \<or> n = 0")
    case True
    with a show ?thesis by auto
  next
    case False
    from Suc [of "(history @ [response]) @ [ask (history @ [response])]"]
    obtain ext where "run_turns answer ask n ((history @ [response]) @ [ask (history @ [response])])
        = ((history @ [response]) @ [ask (history @ [response])]) @ ext" by blast
    with a False have "run_turns answer ask (Suc n) history =
        history @ (response # ask (history @ [response]) # ext)" by simp
    then show ?thesis by blast
  qed
qed

lemma run_turns_hd: "history \<noteq> [] \<Longrightarrow> hd (run_turns answer ask n history) = hd history"
proof -
  assume h: "history \<noteq> []"
  obtain ext where "run_turns answer ask n history = history @ ext"
    using run_turns_extends by blast
  with h show ?thesis by simp
qed

lemma run_turns_length:
  "0 < n \<Longrightarrow> length (run_turns answer ask n history) + 1 \<le> length history + 2 * n"
proof (induction n arbitrary: history)
  case 0
  then show ?case by simp
next
  case (Suc n)
  obtain response finished where a: "answer history = (response, finished)"
    by (cases "answer history")
  show ?case
  proof (cases "finished \<or> n = 0")
    case True
    with a show ?thesis by auto
  next
    case False
    then have "0 < n" by simp
    from Suc.IH [OF this, of "(history @ [response]) @ [ask (history @ [response])]"] a False
    show ?thesis by simp
  qed
qed

text \<open>
  C7: whatever the query and whatever the collaborators answer, \<open>main\<close> run on the
  runtime of the spec gives exactly three stages, each run once, in the order fetch,
  analyze, score. The fetch stage opens with \<open>Query: \<close> followed by the query, the analyze
  stage with \<open>Here are the reviews\<close>, the score stage with \<open>Here are the scores\<close>; the
  first has no context and each later one has the summary of the stage before it. Each
  exchange holds at most two requests and two answers, and the summary of each stage is
  the last message of its exchange. On the side of the code alone: \<open>main\<close> makes one call
  of \<open>initiate_chats\<close>, from the entrypoint agent, with three chats that carry these
  recipients and messages, \<open>max_turns = 2\<close> and the summary method \<open>last_msg\<close>.
\<close>

theorem coordinator_three_stages:
  "(\<exists>fetch analyze score.
      main (modelled_initiate_chats rt) user_query = [fetch, analyze, score]
      \<and> stage_recipient fetch = data_fetch_agent
      \<and> stage_recipient analyze = review_analysis_agent
      \<and> stage_recipient score = scoring_agent
      \<and> hd (chat_history fetch) = ''Query: '' @ user_query
      \<and> hd (chat_history analyze) = ''Here are the reviews''
      \<and> hd (chat_history score) = ''Here are the scores''
      \<and> stage_context fetch = None
      \<and> stage_context analyze = Some (summary fetch)
      \<and> stage_context score = Some (summary analyze)
      \<and> chat_history fetch \<noteq> [] \<and> chat_history analyze \<noteq> [] \<and> chat_history score \<noteq> []
      \<and> length (chat_history fetch) \<le> 2 * 2
      \<and> length (chat_history analyze) \<le> 2 * 2
      \<and> length (chat_history score) \<le> 2 * 2
      \<and> summary fetch = last (chat_history fetch)
      \<and> summary analyze = last (chat_history analyze)
      \<and> summary score = last (chat_history score))
   \<and> main initiate_chats user_query =
       initiate_chats entrypoint_agent (main (\<lambda>sender chats. chats) user_query)
   \<and> map recipient (main (\<lambda>sender chats. chats) user_query) =
       [data_fetch_agent, review_analysis_agent, scoring_agent]
   \<and> map message (main (\<lambda>sender chats. chats) user_query) =
       [''Query: '' @ user_query, ''Here are the reviews'', ''Here are the scores'']
   \<and> map max_turns (main (\<lambda>sender chats. chats) user_query) = [2, 2, 2]
   \<and> map summary_method (main (\<lambda>sender chats. chats) user_query) =
       [''last_msg'', ''last_msg'', ''last_msg'']"
proof -
  define h1 where "h1 = run_turns (respond rt data_fetch_agent None)
      (follow_up rt entrypoint_agent None) 2 [''Query: '' @ user_query]"
  define s1 where "s1 = last h1"
  define h2 where "h2 = run_turns (respond rt review_analysis_agent (Some s1))
      (follow_up rt entrypoint_agent (Some s1)) 2 [''Here are the reviews'']"
  define s2 where "s2 = last h2"
  define h3 where "h3 = run_turns (respond rt scoring_agent (Some s2))
      (follow_up rt entrypoint_agent (Some s2)) 2 [''Here are the scores'']"
  define s3 where "s3 = last h3"
  define fetch where "fetch = \<lparr>stage_recipient = data_fetch_agent, stage_context = None,
      chat_history = h1, summary = s1\<rparr>"
  define analyze where "analyze = \<lparr>stage_recipient = review_analysis_agent,
      stage_context = Some s1, chat_history = h2, summary = s2\<rparr>"
  define score where "score = \<lparr>stage_recipient = scoring_agent, stage_context = Some s2,
      chat_history = h3, summary = s3\<rparr>"
  have run: "main (modelled_initiate_chats rt) user_query = [fetch, analyze, score]"
    by (simp add: main_def modelled_initiate_chats_def stage_summary_def Let_def
        fetch_def analyze_def score_def h1_def h2_def h3_def s1_def s2_def s3_def)
  have hd1: "hd h1 = ''Query: '' @ user_query" unfolding h1_def by (subst run_turns_hd) simp_all
  have hd2: "hd h2 = ''Here are the reviews''" unfolding h2_def by (subst run_turns_hd) simp_all
  have hd3: "hd h3 = ''Here are the scores''" unfolding h3_def by (subst run_turns_hd) simp_all
  have ne: "h1 \<noteq> []" "h2 \<noteq> []" "h3 \<noteq> []"
  proof -
    obtain e1 where "h1 = [''Query: '' @ user_query] @ e1"
      unfolding h1_def using run_turns_extends by blast
    then show "h1 \<noteq> []" by simp
    obtain e2 where "h2 = [''Here are the reviews''] @ e2"
      unfolding h2_def using run_turns_extends by blast
    then show "h2 \<noteq> []" by simp
    obtain e3 where "h3 = [''Here are the scores''] @ e3"
      unfolding h3_def using run_turns_extends by blast
    then show "h3 \<noteq> []" by simp
  qed
  have len: "length h1 \<le> 2 * 2" "length h2 \<le> 2 * 2" "length h3 \<le> 2 * 2"
    using run_turns_length [of 2 "respond rt data_fetch_agent None"
        "follow_up rt entrypoint_agent None" "[''Query: '' @ user_query]"]
      run_turns_length [of 2 "respond rt review_analysis_agent (Some s1)"
        "follow_up rt entrypoint_agent (Some s1)" "[''Here are the reviews'']"]
      run_turns_length [of 2 "respond rt scoring_agent (Some s2)"
        "follow_up rt entrypoint_agent (Some s2)" "[''Here are the scores'']"]
    by (simp_all add: h1_def h2_def h3_def)
  have stages: "\<exists>fetch analyze score.
      main (modelled_initiate_chats rt) user_query = [fetch, analyze, score]
      \<and> stage_recipient fetch = data_fetch_agent
      \<and> stage_recipient analyze = review_analysis_agent
      \<and> stage_recipient score = scoring_agent
      \<and> hd (chat_history fetch) = ''Query: '' @ user_query
      \<and> hd (chat_history analyze) = ''Here are the reviews''
      \<and> hd (chat_history score) = ''Here are the scores''
      \<and> stage_context fetch = None
      \<and> stage_context analyze = Some (summary fetch)
      \<and> stage_context score = Some (summary analyze)
      \<and> chat_history fetch \<noteq> [] \<and> chat_history analyze \<noteq> [] \<and> chat_history score \<noteq> []
      \<and> length (chat_history fetch) \<le> 2 * 2
      \<and> length (chat_history analyze) \<le> 2 * 2
      \<and> length (chat_history score) \<le> 2 * 2
      \<and> summary fetch = last (chat_history fetch)
      \<and> summary analyze = last (chat_history analyze)
      \<and> summary score = last (chat_history score)"
    using run hd1 hd2 hd3 ne len
    by (intro exI [of _ fetch] exI [of _ analyze] exI [of _ score])
      (simp add: fetch_def analyze_def score_def s1_def s2_def s3_def)
  have queue: "main initiate_chats user_query =
       initiate_chats entrypoint_agent (main (\<lambda>sender chats. chats) user_query)
     \<and> map recipient (main (\<lambda>sender chats. chats) user_query) =
       [data_fetch_agent, review_analysis_agent, scoring_agent]
     \<and> map message (main (\<lambda>sender chats. chats) user_query) =
       [''Query: '' @ user_query, ''Here are the reviews'', ''Here are the scores'']
     \<and> map max_turns (main (\<lambda>sender chats. chats) user_query) = [2, 2, 2]
     \<and> map summary_method (main (\<lambda>sender chats. chats) user_query) =
       [''last_msg'', ''last_msg'', ''last_msg'']"
    by (simp add: main_def)
  from stages queue show ?thesis by blast
qed

theorem coordinator_three_stages_witness:
  "main (modelled_initiate_chats
      \<lparr>respond = (\<lambda>agent context history. (agent_name agent, False)),
       follow_up = (\<lambda>agent context history. ''continue''),
       summarize_other = (\<lambda>method history. [])\<rparr>) ''Pasta Place'' =
   [\<lparr>stage_recipient = data_fetch_agent, stage_context = None,
     chat_history = [''Query: Pasta Place'', ''data_fetch_agent'', ''continue'',
                     ''data_fetch_agent''],
     summary = ''data_fetch_agent''\<rparr>,
    \<lparr>stage_recipient = review_analysis_agent, stage_context = Some ''data_fetch_agent'',
     chat_history = [''Here are the reviews'', ''review_analysis_agent'', ''continue'',
                     ''review_analysis_agent''],
     summary = ''review_analysis_agent''\<rparr>,
    \<lparr>stage_recipient = scoring_agent, stage_context = Some ''review_analysis_agent'',
     chat_history = [''Here are the scores'', ''scoring_agent'', ''continue'',
                     ''scoring_agent''],
     summary = ''scoring_agent''\<rparr>]"
  using coordinator_three_stages
    [of "\<lparr>respond = (\<lambda>agent context history. (agent_name agent, False)),
          follow_up = (\<lambda>agent context history. ''continue''),
          summarize_other = (\<lambda>method history. [])\<rparr>" "''Pasta Place''"]
  by (simp add: main_def modelled_initiate_chats_def stage_summary_def Let_def numeral_2_eq_2
      data_fetch_agent_def review_analysis_agent_def scoring_agent_def)

end
